theory Spec2Isabelle
  imports Main "HOL-Library.Word" "HOL-Library.Signed_Division"
begin

unbundle bit_operations_syntax

section \<open>The data model of opencad.c\<close>

text \<open>
  The library works on a caller-owned array of packed 32-bit colours that is passed
  together with its width and height.  The C types are fixed to the LP64 data model:
  \<^verbatim>\<open>uint32_t\<close> is a 32-bit word, \<^verbatim>\<open>uint8_t\<close> an 8-bit word, \<^verbatim>\<open>size_t\<close> a 64-bit word
  (unsigned arithmetic wraps), and \<^verbatim>\<open>int\<close> is a signed 32-bit integer.  A value of type
  \<^verbatim>\<open>int\<close> is modelled by a HOL integer; every signed operation checks that its
  result is representable, because signed overflow is undefined behaviour in C.
  Undefined behaviour is a result of its own (\<open>Inl\<close>), as is an access outside the
  pixel array.
\<close>

type_synonym uint32_t = "32 word"
type_synonym uint8_t = "8 word"
type_synonym size_t = "64 word"

datatype ub = Signed_Overflow | Division_By_Zero | Out_Of_Bounds

definition INT_MIN :: int where
  "INT_MIN = - 2147483648"

definition INT_MAX :: int where
  "INT_MAX = 2147483647"

definition is_int :: "int \<Rightarrow> bool" where
  "is_int v = (INT_MIN \<le> v \<and> v \<le> INT_MAX)"

text \<open>Sequencing of computations that may hit undefined behaviour.\<close>

definition ub_bind :: "ub + 'a \<Rightarrow> ('a \<Rightarrow> ub + 'b) \<Rightarrow> ub + 'b" where
  "ub_bind m f = (case m of Inl e \<Rightarrow> Inl e | Inr v \<Rightarrow> f v)"

text \<open>The result of a signed \<^verbatim>\<open>int\<close> operation whose mathematical value is \<open>v\<close>.\<close>

definition int_val :: "int \<Rightarrow> ub + int" where
  "int_val v = (if is_int v then Inr v else Inl Signed_Overflow)"

definition int_add :: "int \<Rightarrow> int \<Rightarrow> ub + int" where
  "int_add a b = int_val (a + b)"

definition int_sub :: "int \<Rightarrow> int \<Rightarrow> ub + int" where
  "int_sub a b = int_val (a - b)"

definition int_mul :: "int \<Rightarrow> int \<Rightarrow> ub + int" where
  "int_mul a b = int_val (a * b)"

text \<open>C division truncates towards zero (\<open>sdiv\<close>); dividing by zero and
  \<^verbatim>\<open>INT_MIN / -1\<close> are undefined.\<close>

definition int_div :: "int \<Rightarrow> int \<Rightarrow> ub + int" where
  "int_div a b = (if b = 0 then Inl Division_By_Zero else int_val (a sdiv b))"

text \<open>The cast \<^verbatim>\<open>(int) n\<close> of a \<^verbatim>\<open>size_t\<close>: implementation-defined when \<open>n\<close> exceeds
  \<^verbatim>\<open>INT_MAX\<close>; as GCC, Clang and MSVC do, the low 32 bits are kept and read as two's
  complement.\<close>

definition int_of_size :: "size_t \<Rightarrow> int" where
  "int_of_size n = sint (ucast n :: 32 word)"

text \<open>The conversion of an \<^verbatim>\<open>int\<close> operand to \<^verbatim>\<open>size_t\<close> in mixed arithmetic
  (reduction modulo \<open>2 ^ 64\<close>).\<close>

definition size_of_int :: "int \<Rightarrow> size_t" where
  "size_of_int v = word_of_int v"

text \<open>Array accesses \<^verbatim>\<open>pixels[i]\<close>: outside the array they are undefined behaviour.\<close>

definition load :: "uint32_t list \<Rightarrow> nat \<Rightarrow> ub + uint32_t" where
  "load pixels i = (if i < length pixels then Inr (pixels ! i) else Inl Out_Of_Bounds)"

definition store :: "uint32_t list \<Rightarrow> nat \<Rightarrow> uint32_t \<Rightarrow> ub + uint32_t list" where
  "store pixels i color =
     (if i < length pixels then Inr (pixels[i := color]) else Inl Out_Of_Bounds)"

text \<open>\<^verbatim>\<open>pixels[y*pixels_width + x] = color\<close> with \<open>x\<close>, \<open>y\<close> of type \<^verbatim>\<open>int\<close> and
  \<open>pixels_width\<close> of type \<^verbatim>\<open>size_t\<close>: the index is computed in \<^verbatim>\<open>size_t\<close>.\<close>

definition store_px :: "uint32_t list \<Rightarrow> size_t \<Rightarrow> int \<Rightarrow> int \<Rightarrow> uint32_t \<Rightarrow> ub + uint32_t list" where
  "store_px pixels pixels_width x y color =
     store pixels (unat (size_of_int y * pixels_width + size_of_int x)) color"

text \<open>\<^verbatim>\<open>void swap_int(int *a, int *b)\<close>, on the pair of the two variables.\<close>

definition swap_int :: "int \<times> int \<Rightarrow> int \<times> int" where
  "swap_int ab = (case ab of (a, b) \<Rightarrow> (let t = a in (b, t)))"

subsection \<open>Loops\<close>

text \<open>\<^verbatim>\<open>for (int i = lo; i <= hi; ++i) body\<close>.  The increment after the last iteration
  overflows when \<open>hi\<close> is \<^verbatim>\<open>INT_MAX\<close>.\<close>

function for_le :: "int \<Rightarrow> int \<Rightarrow> (int \<Rightarrow> 's \<Rightarrow> ub + 's) \<Rightarrow> 's \<Rightarrow> ub + 's" where
  "for_le i hi body s =
     (if i \<le> hi
      then (case body i s of
              Inl e \<Rightarrow> Inl e
            | Inr s' \<Rightarrow> (if is_int (i + 1) then for_le (i + 1) hi body s'
                         else Inl Signed_Overflow))
      else Inr s)"
  by pat_completeness auto
termination
  by (relation "measure (\<lambda>(i, hi, body, s). nat (hi + 1 - i))") auto

text \<open>\<^verbatim>\<open>for (int i = lo; i < hi; ++i) body\<close>.\<close>

function for_lt :: "int \<Rightarrow> int \<Rightarrow> (int \<Rightarrow> 's \<Rightarrow> ub + 's) \<Rightarrow> 's \<Rightarrow> ub + 's" where
  "for_lt i hi body s =
     (if i < hi
      then (case body i s of
              Inl e \<Rightarrow> Inl e
            | Inr s' \<Rightarrow> (if is_int (i + 1) then for_lt (i + 1) hi body s'
                         else Inl Signed_Overflow))
      else Inr s)"
  by pat_completeness auto
termination
  by (relation "measure (\<lambda>(i, hi, body, s). nat (hi - i))") auto

declare for_le.simps [simp del]
declare for_lt.simps [simp del]

section \<open>Solid fill\<close>

text \<open>
  \<^verbatim>\<open>for (size_t i = 0; i < width*height; ++i) pixels[i] = color;\<close>
  The bound is the \<^verbatim>\<open>size_t\<close> product and wraps modulo \<open>2 ^ 64\<close>; the counter stays
  below the bound, so its increment does not wrap.
\<close>

function opencad_fill_loop :: "uint32_t list \<Rightarrow> size_t \<Rightarrow> uint32_t \<Rightarrow> size_t \<Rightarrow> ub + uint32_t list" where
  "opencad_fill_loop pixels n color i =
     (if i < n
      then (case store pixels (unat i) color of
              Inl e \<Rightarrow> Inl e
            | Inr pixels' \<Rightarrow> opencad_fill_loop pixels' n color (i + 1))
      else Inr pixels)"
  by pat_completeness auto
termination
proof (relation "measure (\<lambda>(pixels, n, color, i). unat n - unat i)")
  fix pixels :: "uint32_t list" and n i :: size_t and color pixels'
  assume "i < n"
  then have "unat i < unat n"
    by (simp add: word_less_nat_alt)
  moreover have "unat n < 2 ^ 64"
    using unsigned_less [of n, where 'a = nat] by simp
  ultimately have "unat (i + 1) = Suc (unat i)"
    by (simp add: unat_word_ariths)
  with \<open>unat i < unat n\<close>
  show "((pixels', n, color, i + 1), (pixels, n, color, i))
          \<in> measure (\<lambda>(pixels, n, color, i). unat n - unat i)"
    by simp
qed simp

declare opencad_fill_loop.simps [simp del]

definition opencad_fill :: "uint32_t list \<Rightarrow> size_t \<Rightarrow> size_t \<Rightarrow> uint32_t \<Rightarrow> ub + uint32_t list" where
  "opencad_fill pixels width height color = opencad_fill_loop pixels (width * height) color 0"

section \<open>Rectangles, circles and lines\<close>

text \<open>
  \<^verbatim>\<open>opencad_fill_rect\<close>: both loop bounds are the \<^verbatim>\<open>size_t\<close> extents cast to \<^verbatim>\<open>int\<close>;
  each candidate pixel is tested against the buffer bounds (cast to \<^verbatim>\<open>int\<close> as well)
  before it is written.
\<close>

definition opencad_fill_rect ::
  "uint32_t list \<Rightarrow> size_t \<Rightarrow> size_t \<Rightarrow> int \<Rightarrow> int \<Rightarrow> size_t \<Rightarrow> size_t \<Rightarrow> uint32_t
     \<Rightarrow> ub + uint32_t list" where
  "opencad_fill_rect pixels pixels_width pixels_height x0 y0 w h color =
     for_lt 0 (int_of_size h) (\<lambda>dy pixels.
       ub_bind (int_add y0 dy) (\<lambda>y.
         if 0 \<le> y \<and> y < int_of_size pixels_height
         then for_lt 0 (int_of_size w) (\<lambda>dx pixels.
                ub_bind (int_add x0 dx) (\<lambda>x.
                  if 0 \<le> x \<and> x < int_of_size pixels_width
                  then store_px pixels pixels_width x y color
                  else Inr pixels)) pixels
         else Inr pixels)) pixels"

text \<open>
  \<^verbatim>\<open>opencad_fill_circle\<close>: the bounding box \<open>[cx - r, cx + r] \<times> [cy - r, cy + r]\<close> is
  scanned row by row and the squared distance is compared with \<open>r * r\<close> in \<^verbatim>\<open>int\<close>
  arithmetic.
\<close>

definition opencad_fill_circle ::
  "uint32_t list \<Rightarrow> size_t \<Rightarrow> size_t \<Rightarrow> int \<Rightarrow> int \<Rightarrow> int \<Rightarrow> uint32_t \<Rightarrow> ub + uint32_t list" where
  "opencad_fill_circle pixels pixels_width pixels_height cx cy r color =
     ub_bind (int_sub cx r) (\<lambda>x1.
     ub_bind (int_sub cy r) (\<lambda>y1.
     ub_bind (int_add cx r) (\<lambda>x2.
     ub_bind (int_add cy r) (\<lambda>y2.
       for_le y1 y2 (\<lambda>y pixels.
         if 0 \<le> y \<and> y < int_of_size pixels_height
         then for_le x1 x2 (\<lambda>x pixels.
                if 0 \<le> x \<and> x < int_of_size pixels_width
                then ub_bind (int_sub x cx) (\<lambda>dx.
                     ub_bind (int_sub y cy) (\<lambda>dy.
                     ub_bind (int_mul dx dx) (\<lambda>dx2.
                     ub_bind (int_mul dy dy) (\<lambda>dy2.
                     ub_bind (int_add dx2 dy2) (\<lambda>d2.
                     ub_bind (int_mul r r) (\<lambda>r2.
                       if d2 \<le> r2 then store_px pixels pixels_width x y color
                       else Inr pixels))))))
                else Inr pixels) pixels
         else Inr pixels) pixels))))"

text \<open>
  \<^verbatim>\<open>opencad_draw_line\<close>.  \<open>dx\<close> and \<open>dy\<close> are computed first, for vertical lines
  too.  A non-vertical line is drawn column by column from \<open>y = dy*x/dx + c\<close>; a
  vertical line is one column span.  \<open>line_column\<close> is the body of the loop over the
  columns of a non-vertical line (the statements inside
  \<^verbatim>\<open>for (int x = x1; x <= x2; ++x)\<close>).
\<close>

definition line_column ::
  "size_t \<Rightarrow> size_t \<Rightarrow> int \<Rightarrow> int \<Rightarrow> int \<Rightarrow> uint32_t \<Rightarrow> int \<Rightarrow> uint32_t list \<Rightarrow> ub + uint32_t list" where
  "line_column pixels_width pixels_height dx dy c color =
     (\<lambda>x pixels.
        if 0 \<le> x \<and> x < int_of_size pixels_width
        then ub_bind (int_mul dy x) (\<lambda>m1.
             ub_bind (int_div m1 dx) (\<lambda>q1.
             ub_bind (int_add q1 c) (\<lambda>sy1.
             ub_bind (int_add x 1) (\<lambda>xn.
             ub_bind (int_mul dy xn) (\<lambda>m2.
             ub_bind (int_div m2 dx) (\<lambda>q2.
             ub_bind (int_add q2 c) (\<lambda>sy2.
               case (if sy1 > sy2 then swap_int (sy1, sy2) else (sy1, sy2)) of
                 (sy1, sy2) \<Rightarrow>
                   for_le sy1 sy2 (\<lambda>y pixels.
                     if 0 \<le> y \<and> y < int_of_size pixels_height
                     then store_px pixels pixels_width x y color
                     else Inr pixels) pixels)))))))
        else Inr pixels)"

definition opencad_draw_line ::
  "uint32_t list \<Rightarrow> size_t \<Rightarrow> size_t \<Rightarrow> int \<Rightarrow> int \<Rightarrow> int \<Rightarrow> int \<Rightarrow> uint32_t
     \<Rightarrow> ub + uint32_t list" where
  "opencad_draw_line pixels pixels_width pixels_height x1 y1 x2 y2 color =
     ub_bind (int_sub x2 x1) (\<lambda>dx.
     ub_bind (int_sub y2 y1) (\<lambda>dy.
       if dx \<noteq> 0
       then ub_bind (int_mul dy x1) (\<lambda>m.
            ub_bind (int_div m dx) (\<lambda>q.
            ub_bind (int_sub y1 q) (\<lambda>c.
              case (if x1 > x2 then swap_int (x1, x2) else (x1, x2)) of (x1, x2) \<Rightarrow>
                for_le x1 x2 (line_column pixels_width pixels_height dx dy c color) pixels)))
       else (let x = x1 in
             if 0 \<le> x \<and> x < int_of_size pixels_width
             then (case (if y1 > y2 then swap_int (y1, y2) else (y1, y2)) of (y1, y2) \<Rightarrow>
                     for_le y1 y2 (\<lambda>y pixels.
                       if 0 \<le> y \<and> y < int_of_size pixels_height
                       then store_px pixels pixels_width x y color
                       else Inr pixels) pixels)
             else Inr pixels)))"

section \<open>The PPM writer\<close>

text \<open>
  The operating system as \<^verbatim>\<open>opencad_save_to_ppm_file\<close> sees it: whether \<^verbatim>\<open>fopen\<close>
  fails on a path, whether the \<open>k\<close>-th write call on the stream sets the error
  indicator, and whether the flush inside \<^verbatim>\<open>fclose\<close> fails, each with the \<^verbatim>\<open>errno\<close>
  value the failure leaves behind.  The stream is buffered: a write call hands its bytes to
  the stream, and a call that leaves the error indicator clear says nothing about their
  having reached the file.  What the file holds is settled when the stream is closed: all
  the bytes handed to the stream if no write call failed and the flush of \<^verbatim>\<open>fclose\<close>
  succeeds, and otherwise only the first \<open>reached_file\<close> of them.

  A stream records the bytes handed to it (\<open>contents\<close>), its error indicator
  (\<^verbatim>\<open>ferror\<close>), the number of write calls so far, whether it was closed, and the bytes
  in the file (\<open>file_bytes\<close>).  \<^verbatim>\<open>errno\<close> is threaded through as a value.
\<close>

record os =
  fopen_errno :: "string \<Rightarrow> int option"
  write_errno :: "nat \<Rightarrow> int option"
  fclose_errno :: "int option"
  reached_file :: nat

record FILE =
  contents :: "uint8_t list"
  error_indicator :: bool
  calls :: nat
  closed :: bool
  file_bytes :: "uint8_t list"

definition EOF :: int where
  "EOF = - 1"

definition fopen :: "os \<Rightarrow> string \<Rightarrow> int \<Rightarrow> FILE option \<times> int" where
  "fopen sys file_path errno =
     (case fopen_errno sys file_path of
        Some e \<Rightarrow> (None, e)
      | None \<Rightarrow> (Some \<lparr>contents = [], error_indicator = False, calls = 0, closed = False,
                       file_bytes = []\<rparr>, errno))"

definition stream_write :: "os \<Rightarrow> uint8_t list \<Rightarrow> FILE \<Rightarrow> int \<Rightarrow> FILE \<times> int" where
  "stream_write sys bytes f errno =
     (case write_errno sys (calls f) of
        Some e \<Rightarrow> (f\<lparr>contents := contents f @ bytes, error_indicator := True,
                      calls := calls f + 1\<rparr>, e)
      | None \<Rightarrow> (f\<lparr>contents := contents f @ bytes, calls := calls f + 1\<rparr>, errno))"

definition ferror :: "FILE \<Rightarrow> bool" where
  "ferror f = error_indicator f"

text \<open>
  \<^verbatim>\<open>fclose\<close> flushes the buffer and closes the stream; it yields its return value
  (0 or \<^verbatim>\<open>EOF\<close>), the stream and \<^verbatim>\<open>errno\<close>.  \<open>flushed\<close> is what the file holds afterwards.
\<close>

definition flushed :: "os \<Rightarrow> FILE \<Rightarrow> uint8_t list" where
  "flushed sys f =
     (if fclose_errno sys = None \<and> \<not> error_indicator f then contents f
      else take (reached_file sys) (contents f))"

definition fclose :: "os \<Rightarrow> FILE \<Rightarrow> int \<Rightarrow> int \<times> FILE \<times> int" where
  "fclose sys f errno =
     (case fclose_errno sys of
        Some e \<Rightarrow> (EOF, f\<lparr>closed := True, file_bytes := flushed sys f\<rparr>, e)
      | None \<Rightarrow> (0, f\<lparr>closed := True, file_bytes := flushed sys f\<rparr>, errno))"

text \<open>
  The macro \<^verbatim>\<open>return_defer(value)\<close> and the code at the label \<^verbatim>\<open>defer\<close>:
  \<^verbatim>\<open>result = (value); if (f) fclose(f); return result;\<close>  The return value of
  \<^verbatim>\<open>fclose\<close> is dropped.
\<close>

definition return_defer :: "os \<Rightarrow> int \<Rightarrow> FILE option \<Rightarrow> int \<Rightarrow> int \<times> FILE option \<times> int" where
  "return_defer sys result f errno =
     (case f of
        None \<Rightarrow> (result, None, errno)
      | Some f \<Rightarrow> (case fclose sys f errno of (rc, f, errno) \<Rightarrow> (result, Some f, errno)))"

text \<open>The \<^verbatim>\<open>%zu\<close> conversion: unsigned decimal, no padding.\<close>

definition digit :: "nat \<Rightarrow> char" where
  "digit d = char_of (of_char (CHR ''0'') + d)"

function decimal :: "nat \<Rightarrow> string" where
  "decimal n = (if n div 10 = 0 then [digit n] else decimal (n div 10) @ [digit (n mod 10)])"
  by pat_completeness auto
termination
  by (relation "measure id") auto

declare decimal.simps [simp del]

definition bytes_of :: "string \<Rightarrow> uint8_t list" where
  "bytes_of s = map of_char s"

text \<open>\<^verbatim>\<open>fprintf(f, "P6\n%zu %zu 255\n", width, height)\<close>.\<close>

definition ppm_header :: "size_t \<Rightarrow> size_t \<Rightarrow> string" where
  "ppm_header width height =
     ''P6\<newline>'' @ decimal (unat width) @ '' '' @ decimal (unat height) @ '' 255\<newline>''"

text \<open>The three bytes written for one pixel.\<close>

definition pixel_bytes :: "uint32_t \<Rightarrow> uint8_t list" where
  "pixel_bytes pixel =
     [ucast (drop_bit (8 * 0) pixel AND 0xFF),
      ucast (drop_bit (8 * 1) pixel AND 0xFF),
      ucast (drop_bit (8 * 2) pixel AND 0xFF)]"

text \<open>The pixel loop of the writer; it yields \<open>(result, stream, errno)\<close>.\<close>

function save_pixels ::
  "os \<Rightarrow> uint32_t list \<Rightarrow> size_t \<Rightarrow> size_t \<Rightarrow> FILE \<Rightarrow> int \<Rightarrow> ub + (int \<times> FILE \<times> int)" where
  "save_pixels sys pixels n i f errno =
     (if i < n
      then (case load pixels (unat i) of
              Inl e \<Rightarrow> Inl e
            | Inr pixel \<Rightarrow>
                (case stream_write sys (pixel_bytes pixel) f errno of
                   (f', errno') \<Rightarrow>
                     if ferror f' then Inr (errno', f', errno')
                     else save_pixels sys pixels n (i + 1) f' errno'))
      else Inr (0, f, errno))"
  by pat_completeness auto
termination
proof (relation "measure (\<lambda>(sys, pixels, n, i, f, errno). unat n - unat i)")
  fix sys :: os and pixels :: "uint32_t list" and n i :: size_t and f f' :: FILE
    and errno errno' :: int
  assume "i < n"
  then have "unat i < unat n"
    by (simp add: word_less_nat_alt)
  moreover have "unat n < 2 ^ 64"
    using unsigned_less [of n, where 'a = nat] by simp
  ultimately have "unat (i + 1) = Suc (unat i)"
    by (simp add: unat_word_ariths)
  with \<open>unat i < unat n\<close>
  show "((sys, pixels, n, i + 1, f', errno'), (sys, pixels, n, i, f, errno))
          \<in> measure (\<lambda>(sys, pixels, n, i, f, errno). unat n - unat i)"
    by simp
qed simp

declare save_pixels.simps [simp del]

text \<open>
  \<^verbatim>\<open>opencad_save_to_ppm_file\<close>, given the system and the current \<^verbatim>\<open>errno\<close>.  It yields
  the returned \<^verbatim>\<open>Errno\<close>, the stream (if one was opened; closed at \<^verbatim>\<open>defer\<close>) and
  the final \<^verbatim>\<open>errno\<close>.  Every exit goes through \<^verbatim>\<open>defer\<close>.
\<close>

definition opencad_save_to_ppm_file ::
  "os \<Rightarrow> int \<Rightarrow> uint32_t list \<Rightarrow> size_t \<Rightarrow> size_t \<Rightarrow> string
     \<Rightarrow> ub + (int \<times> FILE option \<times> int)" where
  "opencad_save_to_ppm_file sys errno pixels width height file_path =
     (case fopen sys file_path errno of
        (None, errno) \<Rightarrow> Inr (return_defer sys errno None errno)
      | (Some f, errno) \<Rightarrow>
          (case stream_write sys (bytes_of (ppm_header width height)) f errno of
             (f, errno) \<Rightarrow>
               if ferror f then Inr (return_defer sys errno (Some f) errno)
               else (case save_pixels sys pixels (width * height) 0 f errno of
                       Inl e \<Rightarrow> Inl e
                     | Inr (result, f, errno) \<Rightarrow> Inr (return_defer sys result (Some f) errno))))"

section \<open>Specification vocabulary\<close>

text \<open>\<open>paint S c p\<close> is the array \<open>p\<close> with the colour \<open>c\<close> at every index in \<open>S\<close>.\<close>

definition paint :: "nat set \<Rightarrow> 'a \<Rightarrow> 'a list \<Rightarrow> 'a list" where
  "paint S c p = map (\<lambda>j. if j \<in> S then c else p ! j) [0..<length p]"

text \<open>The row-major index of the pixel \<open>(x, y)\<close>.\<close>

definition px_index :: "size_t \<Rightarrow> int \<Rightarrow> int \<Rightarrow> nat" where
  "px_index pixels_width x y = nat y * unat pixels_width + nat x"

text \<open>The indices of the pixels \<open>(x, y)\<close> inside the buffer that satisfy \<open>P\<close>.\<close>

definition region :: "size_t \<Rightarrow> size_t \<Rightarrow> (int \<Rightarrow> int \<Rightarrow> bool) \<Rightarrow> nat set" where
  "region pixels_width pixels_height P =
     {px_index pixels_width x y | x y.
        0 \<le> x \<and> x < uint pixels_width \<and> 0 \<le> y \<and> y < uint pixels_height \<and> P x y}"

text \<open>The row \<open>(dy * x) / dx + c\<close> of a non-vertical line at column \<open>x\<close>, with
  \<open>dx = x2 - x1\<close>, \<open>dy = y2 - y1\<close>, \<open>c = y1 - (dy * x1) / dx\<close> and truncating division.\<close>

definition line_y :: "int \<Rightarrow> int \<Rightarrow> int \<Rightarrow> int \<Rightarrow> int \<Rightarrow> int" where
  "line_y x1 y1 x2 y2 x =
     ((y2 - y1) * x) sdiv (x2 - x1) + (y1 - ((y2 - y1) * x1) sdiv (x2 - x1))"

text \<open>A result that is not an out-of-bounds access and, when it is a state, satisfies \<open>I\<close>.\<close>

definition no_oob :: "('s \<Rightarrow> bool) \<Rightarrow> ub + 's \<Rightarrow> bool" where
  "no_oob I r = (r \<noteq> Inl Out_Of_Bounds \<and> (\<forall>s. r = Inr s \<longrightarrow> I s))"

text \<open>A system on which every \<^verbatim>\<open>fopen\<close> and every write succeeds, and the bytes that
  reached the file of a call of the writer.\<close>

definition reliable :: os where
  "reliable = \<lparr>fopen_errno = (\<lambda>file_path. None), write_errno = (\<lambda>k. None),
                fclose_errno = None, reached_file = 0\<rparr>"

definition written :: "ub + (int \<times> FILE option \<times> int) \<Rightarrow> uint8_t list" where
  "written r = (case r of Inr (result, Some f, errno) \<Rightarrow> contents f | _ \<Rightarrow> [])"

text \<open>A system on which every \<^verbatim>\<open>fopen\<close> fails with \<^verbatim>\<open>errno\<close> 2 (\<^verbatim>\<open>ENOENT\<close>).\<close>

definition no_such_directory :: os where
  "no_such_directory = \<lparr>fopen_errno = (\<lambda>file_path. Some 2), write_errno = (\<lambda>k. None),
                          fclose_errno = None, reached_file = 0\<rparr>"

text \<open>A system on which the file opens and no write call sets the error indicator, but
  the device is full: the flush in \<^verbatim>\<open>fclose\<close> fails with \<^verbatim>\<open>errno\<close> 28 (\<^verbatim>\<open>ENOSPC\<close>) and only the
  first 14 bytes are in the file.\<close>

definition full_at_close :: os where
  "full_at_close = \<lparr>fopen_errno = (\<lambda>file_path. None), write_errno = (\<lambda>k. None),
                      fclose_errno = Some 28, reached_file = 14\<rparr>"

text \<open>The value of \<^verbatim>\<open>errno\<close> after \<^verbatim>\<open>fclose\<close>.\<close>

definition errno_after_close :: "os \<Rightarrow> int \<Rightarrow> int" where
  "errno_after_close sys errno = (case fclose_errno sys of None \<Rightarrow> errno | Some e \<Rightarrow> e)"

text \<open>The number a string of decimal digits denotes.\<close>

definition decimal_value :: "string \<Rightarrow> nat" where
  "decimal_value s = foldl (\<lambda>a c. 10 * a + (of_char c - of_char (CHR ''0''))) 0 s"

section \<open>Basic facts\<close>

lemma length_paint [simp]: "length (paint S c p) = length p"
  by (simp add: paint_def)

lemma nth_paint: "j < length p \<Longrightarrow> paint S c p ! j = (if j \<in> S then c else p ! j)"
  by (simp add: paint_def)

lemma paint_empty [simp]: "paint {} c p = p"
  by (rule nth_equalityI) (simp_all add: nth_paint)

lemma paint_paint: "paint T c (paint S c p) = paint (S \<union> T) c p"
  by (rule nth_equalityI) (auto simp: nth_paint)

lemma list_update_paint: "i < length p \<Longrightarrow> p[i := c] = paint {i} c p"
  by (rule nth_equalityI) (auto simp: nth_paint nth_list_update)

lemma ub_bind_Inr [simp]: "ub_bind (Inr v) f = f v"
  by (simp add: ub_bind_def)

lemma ub_bind_Inl [simp]: "ub_bind (Inl e) f = Inl e"
  by (simp add: ub_bind_def)

lemma ub_bind_eq_Inr: "ub_bind m f = Inr r \<longleftrightarrow> (\<exists>v. m = Inr v \<and> f v = Inr r)"
  by (cases m) simp_all

lemma int_val_eq_Inr: "int_val v = Inr w \<longleftrightarrow> is_int v \<and> w = v"
  by (auto simp: int_val_def)

lemma int_val_is_int: "is_int v \<Longrightarrow> int_val v = Inr v"
  by (simp add: int_val_def)

lemma for_le_empty: "hi < i \<Longrightarrow> for_le i hi body s = Inr s"
  by (simp add: for_le.simps)

lemma for_le_step:
  "i \<le> hi \<Longrightarrow> for_le i hi body s =
     ub_bind (body i s) (\<lambda>s'. if is_int (i + 1) then for_le (i + 1) hi body s' else Inl Signed_Overflow)"
  by (subst for_le.simps) (simp add: ub_bind_def)

lemma for_lt_for_le: "for_lt i hi body s = for_le i (hi - 1) body s"
proof (induction i hi body s rule: for_lt.induct)
  case (1 i hi body s)
  show ?case
  proof (cases "i < hi")
    case True
    then show ?thesis
      using 1 by (subst for_lt.simps, subst for_le.simps) (auto split: sum.splits)
  next
    case False
    then show ?thesis
      by (subst for_lt.simps, subst for_le.simps) simp
  qed
qed

lemma for_le_result:
  assumes "for_le i hi body p = Inr p'"
    and "\<And>k q q'. i \<le> k \<Longrightarrow> k \<le> hi \<Longrightarrow> length q = length p \<Longrightarrow> body k q = Inr q'
           \<Longrightarrow> q' = paint (S k) c q"
  shows "p' = paint (\<Union>k\<in>{i..hi}. S k) c p"
  using assms
proof (induction "nat (hi + 1 - i)" arbitrary: i p)
  case 0
  then have "hi < i" by simp
  with "0.prems"(1) show ?case by (simp add: for_le_empty)
next
  case (Suc n)
  then have le: "i \<le> hi" by simp
  from Suc.prems(1) le obtain q where q: "body i p = Inr q"
    and int: "is_int (i + 1)" and rest: "for_le (i + 1) hi body q = Inr p'"
    by (auto simp: for_le_step ub_bind_eq_Inr split: if_splits)
  have qp: "q = paint (S i) c p"
    using Suc.prems(2) [OF _ le _ q] by simp
  have "p' = paint (\<Union>k\<in>{i + 1..hi}. S k) c q"
  proof (rule Suc.hyps(1) [OF _ rest])
    show "n = nat (hi + 1 - (i + 1))" using Suc.hyps(2) by simp
  next
    fix k r r'
    assume "i + 1 \<le> k" "k \<le> hi" "length r = length q" "body k r = Inr r'"
    then show "r' = paint (S k) c r"
      using Suc.prems(2) [of k r r'] qp by simp
  qed
  moreover have "{i..hi} = insert i {i + 1..hi}"
    using le by auto
  ultimately show ?case
    by (simp add: qp paint_paint)
qed

lemma for_le_defined:
  assumes "INT_MIN \<le> i" "hi < INT_MAX" "I p"
    and "\<And>k q. i \<le> k \<Longrightarrow> k \<le> hi \<Longrightarrow> I q \<Longrightarrow> \<exists>q'. body k q = Inr q' \<and> I q'"
  shows "\<exists>p'. for_le i hi body p = Inr p' \<and> I p'"
  using assms
proof (induction "nat (hi + 1 - i)" arbitrary: i p)
  case 0
  then have "hi < i" by simp
  with "0.prems" show ?case by (simp add: for_le_empty)
next
  case (Suc n)
  then have le: "i \<le> hi" by simp
  from Suc.prems(4) [OF _ le Suc.prems(3)] obtain q where q: "body i p = Inr q" and Iq: "I q"
    by auto
  have int: "is_int (i + 1)"
    using le Suc.prems(1,2) by (simp add: is_int_def)
  have "\<exists>p'. for_le (i + 1) hi body q = Inr p' \<and> I p'"
  proof (rule Suc.hyps(1) [OF _ _ Suc.prems(2) Iq])
    show "n = nat (hi + 1 - (i + 1))" using Suc.hyps(2) by simp
    show "INT_MIN \<le> i + 1" using Suc.prems(1) by simp
  next
    fix k r
    assume "i + 1 \<le> k" "k \<le> hi" "I r"
    then show "\<exists>q'. body k r = Inr q' \<and> I q'"
      using Suc.prems(4) [of k r] by simp
  qed
  then show ?case
    using le q int by (simp add: for_le_step)
qed

lemma for_le_no_oob:
  assumes "I p"
    and "\<And>k q. I q \<Longrightarrow> body k q \<noteq> Inl Out_Of_Bounds \<and> (\<forall>q'. body k q = Inr q' \<longrightarrow> I q')"
  shows "for_le i hi body p \<noteq> Inl Out_Of_Bounds \<and> (\<forall>p'. for_le i hi body p = Inr p' \<longrightarrow> I p')"
  using assms
proof (induction i hi body p rule: for_le.induct)
  case (1 i hi body s)
  note step = "1.prems"(2) [OF "1.prems"(1), of i]
  show ?case
  proof (cases "i \<le> hi")
    case False
    then show ?thesis using "1.prems"(1) by (simp add: for_le_empty)
  next
    case True
    show ?thesis
    proof (cases "body i s")
      case (Inl e)
      then show ?thesis
        using True step by (auto simp: for_le_step)
    next
      case (Inr q)
      then have "I q" using step by simp
      then show ?thesis
        using True Inr "1.IH" [OF True Inr _ _ "1.prems"(2)] by (simp add: for_le_step)
    qed
  qed
qed

lemma for_le_skip:
  assumes "i \<le> j" "j \<le> hi + 1" "INT_MIN \<le> i" "j \<le> INT_MAX"
    and "\<And>k. i \<le> k \<Longrightarrow> k < j \<Longrightarrow> body k s = Inr s"
  shows "for_le i hi body s = for_le j hi body s"
  using assms
proof (induction "nat (j - i)" arbitrary: i)
  case 0
  then show ?case by simp
next
  case (Suc n)
  then have lt: "i < j" by simp
  then have "for_le i hi body s = for_le (i + 1) hi body s"
    using Suc.prems by (simp add: for_le_step is_int_def)
  also have "\<dots> = for_le j hi body s"
    by (rule Suc.hyps(1)) (use Suc.hyps(2) Suc.prems lt in auto)
  finally show ?case .
qed

section \<open>Solid fill: results\<close>

lemma unat_inc: "(i::size_t) < n \<Longrightarrow> unat (i + 1) = Suc (unat i)"
proof -
  assume "i < n"
  then have "unat i < unat n"
    by (simp add: word_less_nat_alt)
  moreover have "unat n < 2 ^ 64"
    using unsigned_less [of n, where 'a = nat] by simp
  ultimately show ?thesis
    by (simp add: unat_word_ariths)
qed

lemma unat_size_mult:
  "unat (w::size_t) * unat (h::size_t) < 2 ^ 64 \<Longrightarrow> unat (w * h) = unat w * unat h"
  by (simp add: unat_word_ariths)

lemma store_paint: "i < length p \<Longrightarrow> store p i c = Inr (paint {i} c p)"
  by (simp add: store_def list_update_paint)

lemma paint_all: "paint {0..<length p} c p = replicate (length p) c"
  by (rule nth_equalityI) (simp_all add: nth_paint)

lemma opencad_fill_loop_paint:
  "unat n \<le> length p \<Longrightarrow> opencad_fill_loop p n c i = Inr (paint {unat i..<unat n} c p)"
proof (induction p n c i rule: opencad_fill_loop.induct)
  case (1 pixels n color i)
  show ?case
  proof (cases "i < n")
    case False
    then have "unat n \<le> unat i" by (simp add: word_less_nat_alt)
    with False show ?thesis
      by (subst opencad_fill_loop.simps) simp
  next
    case True
    then have lt: "unat i < unat n" by (simp add: word_less_nat_alt)
    then have st: "store pixels (unat i) color = Inr (paint {unat i} color pixels)"
      using "1.prems" by (simp add: store_paint)
    have "opencad_fill_loop (paint {unat i} color pixels) n color (i + 1)
            = Inr (paint {unat (i + 1)..<unat n} color (paint {unat i} color pixels))"
      using "1.IH" [OF True st] "1.prems" by simp
    moreover have "{unat i} \<union> {unat (i + 1)..<unat n} = {unat i..<unat n}"
      using lt unat_inc [OF True] by auto
    ultimately show ?thesis
      using True st by (subst opencad_fill_loop.simps) (simp add: paint_paint)
  qed
qed

text \<open>
  Claim C7.  The buffer is an array of exactly \<open>width * height\<close> elements, as the data
  model requires (a C array has fewer than \<open>2 ^ 64\<close> elements).  Then \<open>opencad_fill\<close>
  runs without undefined behaviour, keeps the length of the buffer, and afterwards
  reading any index below \<open>width * height\<close> yields exactly the fill colour.  The
  dimensions need not even be positive.
\<close>

theorem opencad_fill_reads_color:
  assumes "length pixels = unat width * unat height"
    and "unat width * unat height < 2 ^ 64"
  shows "\<exists>pixels'. opencad_fill pixels width height color = Inr pixels'
           \<and> length pixels' = length pixels
           \<and> (\<forall>i. i < unat width * unat height \<longrightarrow> load pixels' i = Inr color)"
proof -
  have n: "unat (width * height) = length pixels"
    using assms by (simp add: unat_size_mult)
  have "opencad_fill pixels width height color = Inr (replicate (length pixels) color)"
    unfolding opencad_fill_def
    using opencad_fill_loop_paint [of "width * height" pixels color 0]
    by (simp add: n paint_all)
  then show ?thesis
    using assms by (simp add: load_def)
qed

theorem opencad_fill_reads_color_witness:
  "\<exists>pixels'. opencad_fill [1, 2, 3, 4, 5, 6] 3 2 9 = Inr pixels'
      \<and> length pixels' = 6 \<and> load pixels' 5 = Inr 9"
  using opencad_fill_reads_color [of "[1, 2, 3, 4, 5, 6]" 3 2 9] by auto

section \<open>The PPM writer: results\<close>

lemma take_Suc_drop:
  "i < length p \<Longrightarrow> take (Suc k) (drop i p) = p ! i # take k (drop (Suc i) p)"
  by (simp add: Cons_nth_drop_Suc [symmetric])

lemma save_pixels_done: "\<not> i < n \<Longrightarrow> save_pixels sys pixels n i f errno = Inr (0, f, errno)"
  by (subst save_pixels.simps) simp

lemma save_pixels_step:
  "i < n \<Longrightarrow> unat i < length pixels \<Longrightarrow>
   save_pixels sys pixels n i f errno =
     (case write_errno sys (calls f) of
        Some e \<Rightarrow> Inr (e, f\<lparr>contents := contents f @ pixel_bytes (pixels ! unat i),
                           error_indicator := True, calls := calls f + 1\<rparr>, e)
      | None \<Rightarrow>
          if error_indicator f
          then Inr (errno, f\<lparr>contents := contents f @ pixel_bytes (pixels ! unat i),
                               calls := calls f + 1\<rparr>, errno)
          else save_pixels sys pixels n (i + 1)
                 (f\<lparr>contents := contents f @ pixel_bytes (pixels ! unat i), calls := calls f + 1\<rparr>)
                 errno)"
  by (subst save_pixels.simps) (simp add: load_def stream_write_def ferror_def split: option.splits)

lemma save_pixels_ok:
  assumes "unat n \<le> length pixels" "\<not> error_indicator f"
    and "\<forall>j. j < unat n - unat i \<longrightarrow> write_errno sys (calls f + j) = None"
  shows "save_pixels sys pixels n i f errno =
           Inr (0, f\<lparr>contents := contents f
                        @ concat (map pixel_bytes (take (unat n - unat i) (drop (unat i) pixels))),
                      calls := calls f + (unat n - unat i)\<rparr>, errno)"
  using assms
proof (induction "unat n - unat i" arbitrary: i f)
  case 0
  then have "\<not> i < n" by (simp add: word_less_nat_alt)
  then show ?case using 0 by (simp add: save_pixels_done)
next
  case (Suc k)
  then have lt: "i < n" and lt': "unat i < unat n" by (simp_all add: word_less_nat_alt)
  have i1: "unat (i + 1) = Suc (unat i)" by (rule unat_inc [OF lt])
  have k: "unat n - unat i = Suc k" using Suc.hyps(2) by simp
  have w0: "write_errno sys (calls f) = None"
    using Suc.prems(3) [rule_format, of 0] lt' by simp
  let ?f = "f\<lparr>contents := contents f @ pixel_bytes (pixels ! unat i), calls := calls f + 1\<rparr>"
  have "save_pixels sys pixels n (i + 1) ?f errno =
          Inr (0, ?f\<lparr>contents := contents ?f
                        @ concat (map pixel_bytes (take (unat n - unat (i + 1)) (drop (unat (i + 1)) pixels))),
                      calls := calls ?f + (unat n - unat (i + 1))\<rparr>, errno)"
  proof (rule Suc.hyps(1))
    show "k = unat n - unat (i + 1)" using k i1 by simp
    show "unat n \<le> length pixels" by fact
    show "\<not> error_indicator ?f" using Suc.prems(2) by simp
    show "\<forall>j. j < unat n - unat (i + 1) \<longrightarrow> write_errno sys (calls ?f + j) = None"
    proof (intro allI impI)
      fix j assume "j < unat n - unat (i + 1)"
      then have "Suc j < unat n - unat i" using i1 by simp
      then show "write_errno sys (calls ?f + j) = None"
        using Suc.prems(3) [rule_format, of "Suc j"] by simp
    qed
  qed
  moreover have "unat n - unat (i + 1) = k" using k i1 by simp
  moreover have "unat i < length pixels" using lt' Suc.prems(1) by simp
  ultimately show ?case
    using lt w0 Suc.prems(2) k i1
    by (simp add: save_pixels_step take_Suc_drop)
qed

lemma save_pixels_fail:
  assumes "unat n \<le> length pixels" "\<not> error_indicator f" "unat i \<le> m" "m < unat n"
    and "\<forall>j. j < m - unat i \<longrightarrow> write_errno sys (calls f + j) = None"
    and "write_errno sys (calls f + (m - unat i)) = Some e"
  shows "save_pixels sys pixels n i f errno =
           Inr (e, f\<lparr>contents := contents f
                        @ concat (map pixel_bytes (take (Suc (m - unat i)) (drop (unat i) pixels))),
                      error_indicator := True,
                      calls := calls f + (m - unat i) + 1\<rparr>, e)"
  using assms
proof (induction "m - unat i" arbitrary: i f)
  case 0
  then have mi: "m = unat i" by simp
  then have lt: "i < n" using "0.prems"(4) by (simp add: word_less_nat_alt)
  have "unat i < length pixels" using mi "0.prems"(1,4) by simp
  then show ?case
    using lt "0.prems"(6) mi by (simp add: save_pixels_step take_Suc_drop)
next
  case (Suc k)
  then have lt': "unat i < unat n" by simp
  then have lt: "i < n" by (simp add: word_less_nat_alt)
  have i1: "unat (i + 1) = Suc (unat i)" by (rule unat_inc [OF lt])
  have k: "m - unat i = Suc k" using Suc.hyps(2) by simp
  have w0: "write_errno sys (calls f) = None"
    using Suc.prems(5) [rule_format, of 0] k by simp
  let ?f = "f\<lparr>contents := contents f @ pixel_bytes (pixels ! unat i), calls := calls f + 1\<rparr>"
  have "save_pixels sys pixels n (i + 1) ?f errno =
          Inr (e, ?f\<lparr>contents := contents ?f
                        @ concat (map pixel_bytes (take (Suc (m - unat (i + 1))) (drop (unat (i + 1)) pixels))),
                      error_indicator := True,
                      calls := calls ?f + (m - unat (i + 1)) + 1\<rparr>, e)"
  proof (rule Suc.hyps(1))
    show "k = m - unat (i + 1)" using k i1 by simp
    show "unat n \<le> length pixels" by fact
    show "\<not> error_indicator ?f" using Suc.prems(2) by simp
    show "unat (i + 1) \<le> m" using k i1 by simp
    show "m < unat n" by fact
    show "\<forall>j. j < m - unat (i + 1) \<longrightarrow> write_errno sys (calls ?f + j) = None"
    proof (intro allI impI)
      fix j assume "j < m - unat (i + 1)"
      then have "Suc j < m - unat i" using i1 by simp
      then show "write_errno sys (calls ?f + j) = None"
        using Suc.prems(5) [rule_format, of "Suc j"] by simp
    qed
    have "calls ?f + (m - unat (i + 1)) = calls f + (m - unat i)"
      using k i1 by simp
    then show "write_errno sys (calls ?f + (m - unat (i + 1))) = Some e"
      using Suc.prems(6) by (simp only:)
  qed
  moreover have "m - unat (i + 1) = k" using k i1 by simp
  moreover have "unat i < length pixels" using lt' Suc.prems(1) by simp
  ultimately show ?case
    using lt w0 Suc.prems(2) k i1
    by (simp add: save_pixels_step take_Suc_drop)
qed

lemma save_pixels_appends:
  assumes "unat n \<le> length pixels"
  shows "\<exists>r f' e' rest. save_pixels sys pixels n i f errno = Inr (r, f', e')
           \<and> contents f' = contents f @ rest"
  using assms
proof (induction "unat n - unat i" arbitrary: i f)
  case 0
  then have "\<not> i < n" by (simp add: word_less_nat_alt)
  then show ?case by (simp add: save_pixels_done)
next
  case (Suc k)
  then have lt': "unat i < unat n" by simp
  then have lt: "i < n" by (simp add: word_less_nat_alt)
  have i1: "unat (i + 1) = Suc (unat i)" by (rule unat_inc [OF lt])
  have inb: "unat i < length pixels" using lt' Suc.prems by simp
  let ?f = "f\<lparr>contents := contents f @ pixel_bytes (pixels ! unat i), calls := calls f + 1\<rparr>"
  have "\<exists>r f' e' rest. save_pixels sys pixels n (i + 1) ?f errno = Inr (r, f', e')
           \<and> contents f' = contents ?f @ rest"
    by (rule Suc.hyps(1)) (use Suc.hyps(2) i1 Suc.prems in simp_all)
  then show ?case
    using lt inb by (auto simp: save_pixels_step split: option.splits)
qed

lemma decimal_value_decimal: "decimal_value (decimal n) = n"
proof (induction n rule: decimal.induct)
  case (1 n)
  show ?case
  proof (cases "n div 10 = 0")
    case True
    then have "n < 10" by simp
    then show ?thesis
      using True by (subst decimal.simps) (simp add: decimal_value_def digit_def)
  next
    case False
    have m: "n mod 10 < 10" by simp
    have "decimal_value (decimal n) = 10 * decimal_value (decimal (n div 10)) + n mod 10"
      using False m by (subst decimal.simps) (simp add: decimal_value_def digit_def)
    then show ?thesis
      using "1.IH" [OF False] by simp
  qed
qed

lemma digit_values: "map digit [0, 1, 2, 3, 4, 5, 6, 7, 8, 9] = ''0123456789''"
  by code_simp

lemma digit_in_digits: "k < 10 \<Longrightarrow> digit k \<in> set ''0123456789''"
proof -
  assume "k < 10"
  then have "k \<in> set [0, 1, 2, 3, 4, 5, 6, 7, 8, 9]" by auto
  then have "digit k \<in> digit ` set [0, 1, 2, 3, 4, 5, 6, 7, 8, 9]"
    by (rule imageI)
  then have "digit k \<in> set (map digit [0, 1, 2, 3, 4, 5, 6, 7, 8, 9])"
    by (simp only: set_map)
  then show ?thesis by (simp only: digit_values)
qed

lemma decimal_digits: "set (decimal n) \<subseteq> set ''0123456789''"
proof (induction n rule: decimal.induct)
  case (1 n)
  show ?case
  proof (cases "n div 10 = 0")
    case True
    then have "n < 10" by simp
    then show ?thesis
      using True digit_in_digits [of n] by (subst decimal.simps) auto
  next
    case False
    have "n mod 10 < 10" by simp
    then show ?thesis
      using False "1.IH" [OF False] digit_in_digits [of "n mod 10"]
      by (subst decimal.simps) auto
  qed
qed

lemma unat_mult_le: "unat ((w::size_t) * h) \<le> unat w * unat h"
  by (simp add: unat_word_ariths)

lemma save_header_step:
  "fopen_errno sys file_path = None \<Longrightarrow> write_errno sys 0 = None \<Longrightarrow>
   opencad_save_to_ppm_file sys errno pixels width height file_path =
     (case save_pixels sys pixels (width * height) 0
             \<lparr>contents = bytes_of (ppm_header width height), error_indicator = False,
                calls = 1, closed = False, file_bytes = []\<rparr> errno of
        Inl e \<Rightarrow> Inl e
      | Inr (result, f, errno) \<Rightarrow> Inr (return_defer sys result (Some f) errno))"
  by (simp add: opencad_save_to_ppm_file_def fopen_def stream_write_def ferror_def)

lemma return_defer_Some:
  "return_defer sys result (Some f) errno =
     (result, Some (f\<lparr>closed := True, file_bytes := flushed sys f\<rparr>), errno_after_close sys errno)"
  by (simp add: return_defer_def fclose_def errno_after_close_def split: option.splits)

lemma return_defer_None: "return_defer sys result None errno = (result, None, errno)"
  by (simp add: return_defer_def)

text \<open>
  Claim C1, as amended.  The claim asks for a newline between the height and \<open>255\<close>;
  the format string of \<^verbatim>\<open>fprintf\<close> puts a single space there.  What holds: whenever the
  file opens and the header write succeeds, the bytes the writer produces begin with
  \<open>P6\<close>, a newline, the width in decimal, one space, the height in decimal, one space,
  \<open>255\<close> and a newline, before any pixel byte, whatever happens to the pixel writes
  afterwards.  The decimal
  numerals are those of \<open>decimal\<close>: digits only, denoting the number
  (\<open>decimal_digits\<close>, \<open>decimal_value_decimal\<close>).
\<close>

theorem ppm_header_written:
  assumes "length pixels = unat width * unat height"
    and "fopen_errno sys file_path = None" and "write_errno sys 0 = None"
  shows "\<exists>result f errno' rest.
           opencad_save_to_ppm_file sys errno pixels width height file_path
             = Inr (result, Some f, errno')
           \<and> contents f = bytes_of (''P6\<newline>'' @ decimal (unat width) @ '' ''
                                      @ decimal (unat height) @ '' 255\<newline>'') @ rest"
proof -
  have "unat (width * height) \<le> length pixels"
    using assms(1) unat_mult_le [of width height] by simp
  from save_pixels_appends [OF this, of sys 0
      "\<lparr>contents = bytes_of (ppm_header width height), error_indicator = False,
         calls = 1, closed = False, file_bytes = []\<rparr>" errno]
  obtain r f' e' rest where
    "save_pixels sys pixels (width * height) 0
        \<lparr>contents = bytes_of (ppm_header width height), error_indicator = False,
           calls = 1, closed = False, file_bytes = []\<rparr> errno = Inr (r, f', e')"
    and "contents f' = bytes_of (ppm_header width height) @ rest"
    by auto
  then show ?thesis
    using assms(2,3) by (simp add: save_header_step return_defer_Some ppm_header_def)
qed

theorem ppm_header_written_witness:
  "\<exists>result f errno' rest.
     opencad_save_to_ppm_file reliable 0 [0xFF0000FF, 0xFF00FF00, 0xFFFF0000, 0xFF808080] 2 2
         ''test.ppm'' = Inr (result, Some f, errno')
     \<and> contents f = bytes_of (''P6\<newline>'' @ decimal (unat (2::size_t)) @ '' ''
                                @ decimal (unat (2::size_t)) @ '' 255\<newline>'') @ rest"
  using ppm_header_written [of "[0xFF0000FF, 0xFF00FF00, 0xFFFF0000, 0xFF808080]" 2 2 reliable
      "''test.ppm''" 0]
  by (simp add: reliable_def)

text \<open>
  Claim C1, as stated, fails on the 2 by 2 buffer of the specification: the first eleven
  bytes written are \<open>P6\<close>, newline, \<open>2 2 255\<close>, newline, and not
  \<open>P6\<close>, newline, \<open>2 2\<close>, newline, \<open>255\<close>, newline.
\<close>

theorem ppm_header_counterexample:
  "take 11 (written (opencad_save_to_ppm_file reliable 0
       [0xFF0000FF, 0xFF00FF00, 0xFFFF0000, 0xFF808080] 2 2 ''test.ppm''))
     = bytes_of ''P6\<newline>2 2 255\<newline>''
   \<and> take 11 (written (opencad_save_to_ppm_file reliable 0
       [0xFF0000FF, 0xFF00FF00, 0xFFFF0000, 0xFF808080] 2 2 ''test.ppm''))
     \<noteq> bytes_of ''P6\<newline>2 2\<newline>255\<newline>''"
  by code_simp

lemma bit_pixel_bytes:
  assumes "k < 8"
  shows "bit (pixel_bytes p ! 0) k = bit p k"
    and "bit (pixel_bytes p ! Suc 0) k = bit p (8 + k)"
    and "bit (pixel_bytes p ! 2) k = bit p (16 + k)"
proof -
  have m: "(0xFF :: uint32_t) = mask 8" by (simp add: mask_eq_exp_minus_1)
  show "bit (pixel_bytes p ! 0) k = bit p k"
    using assms unfolding pixel_bytes_def m by (auto simp: bit_simps)
  show "bit (pixel_bytes p ! Suc 0) k = bit p (8 + k)"
    using assms unfolding pixel_bytes_def m by (auto simp: bit_simps)
  show "bit (pixel_bytes p ! 2) k = bit p (16 + k)"
    using assms unfolding pixel_bytes_def m by (auto simp: bit_simps)
qed

lemma length_concat_pixel_bytes: "length (concat (map pixel_bytes ps)) = 3 * length ps"
  by (induction ps) (simp_all add: pixel_bytes_def)

lemma nth_concat_pixel_bytes:
  "i < length ps \<Longrightarrow> j < 3 \<Longrightarrow> concat (map pixel_bytes ps) ! (3 * i + j) = pixel_bytes (ps ! i) ! j"
proof (induction ps arbitrary: i)
  case Nil
  then show ?case by simp
next
  case (Cons p ps)
  have len: "length (pixel_bytes p) = 3" by (simp add: pixel_bytes_def)
  show ?case
  proof (cases i)
    case 0
    then show ?thesis using Cons.prems len by (simp add: nth_append)
  next
    case (Suc i')
    then have "3 * i + j = 3 + (3 * i' + j)" by simp
    then show ?thesis
      using Suc Cons.prems Cons.IH [of i'] len by (simp add: nth_append)
  qed
qed

text \<open>
  Claim C2.  For a buffer of exactly \<open>width * height\<close> pixels, when the file opens and
  every write succeeds, the writer returns 0 and the bytes it has written are the header
  followed by exactly \<open>3 * width * height\<close> bytes; the three bytes of pixel \<open>i\<close> stand at
  \<open>3 * i\<close>, \<open>3 * i + 1\<close> and \<open>3 * i + 2\<close> (buffer order) and hold bits 0 to 7, 8 to 15 and
  16 to 23 of the packed colour.  Bits 24 to 31 occur nowhere in the data.  When the flush
  of \<^verbatim>\<open>fclose\<close> succeeds as well, these are the bytes of the file.
\<close>

theorem ppm_pixel_data:
  assumes "length pixels = unat width * unat height"
    and "unat width * unat height < 2 ^ 64"
    and "fopen_errno sys file_path = None"
    and "\<forall>k. k \<le> unat width * unat height \<longrightarrow> write_errno sys k = None"
  shows "\<exists>f data.
           opencad_save_to_ppm_file sys errno pixels width height file_path
             = Inr (0, Some f, errno_after_close sys errno)
           \<and> contents f = bytes_of (ppm_header width height) @ data
           \<and> (fclose_errno sys = None \<longrightarrow> file_bytes f = contents f)
           \<and> length data = 3 * (unat width * unat height)
           \<and> (\<forall>i k. i < unat width * unat height \<and> k < 8 \<longrightarrow>
                 bit (data ! (3 * i)) k = bit (pixels ! i) k
               \<and> bit (data ! (3 * i + 1)) k = bit (pixels ! i) (8 + k)
               \<and> bit (data ! (3 * i + 2)) k = bit (pixels ! i) (16 + k))"
proof -
  let ?n = "unat width * unat height"
  let ?f0 = "\<lparr>contents = bytes_of (ppm_header width height), error_indicator = False,
               calls = 1, closed = False, file_bytes = []\<rparr>"
  let ?data = "concat (map pixel_bytes pixels)"
  have n: "unat (width * height) = length pixels"
    using assms(1,2) by (simp add: unat_size_mult)
  have "save_pixels sys pixels (width * height) 0 ?f0 errno =
          Inr (0, ?f0\<lparr>contents := contents ?f0
                 @ concat (map pixel_bytes (take (unat (width * height) - unat (0::size_t))
                                                 (drop (unat (0::size_t)) pixels))),
               calls := calls ?f0 + (unat (width * height) - unat (0::size_t))\<rparr>, errno)"
  proof (rule save_pixels_ok)
    show "unat (width * height) \<le> length pixels" using n by simp
    show "\<not> error_indicator ?f0" by simp
    show "\<forall>j. j < unat (width * height) - unat (0::size_t) \<longrightarrow> write_errno sys (calls ?f0 + j) = None"
      using assms(4) n assms(1) by simp
  qed
  then have res: "opencad_save_to_ppm_file sys errno pixels width height file_path =
      Inr (0, Some \<lparr>contents = bytes_of (ppm_header width height) @ ?data, error_indicator = False,
                    calls = 1 + length pixels, closed = True,
                    file_bytes = (if fclose_errno sys = None
                                  then bytes_of (ppm_header width height) @ ?data
                                  else take (reached_file sys)
                                         (bytes_of (ppm_header width height) @ ?data))\<rparr>,
           errno_after_close sys errno)"
    using assms(3,4) n by (simp add: save_header_step return_defer_Some flushed_def)
  have bits: "bit (?data ! (3 * i)) k = bit (pixels ! i) k
               \<and> bit (?data ! (3 * i + 1)) k = bit (pixels ! i) (8 + k)
               \<and> bit (?data ! (3 * i + 2)) k = bit (pixels ! i) (16 + k)"
    if "i < ?n" "k < 8" for i k
  proof -
    have i: "i < length pixels" using that assms(1) by simp
    show ?thesis
      using nth_concat_pixel_bytes [OF i, of 0] nth_concat_pixel_bytes [OF i, of 1]
        nth_concat_pixel_bytes [OF i, of 2] that(2)
      by (simp add: bit_pixel_bytes)
  qed
  show ?thesis
    using res bits assms(1) by (auto simp: length_concat_pixel_bytes)
qed

theorem ppm_pixel_data_witness:
  "\<exists>f data.
     opencad_save_to_ppm_file reliable 0 [0xFF0000FF, 0xFF00FF00, 0xFFFF0000, 0xFF808080] 2 2
         ''test.ppm'' = Inr (0, Some f, 0)
     \<and> contents f = bytes_of (ppm_header 2 2) @ data
     \<and> file_bytes f = contents f
     \<and> length data = 12
     \<and> bit (data ! 10) 7 = bit (0xFF808080 :: uint32_t) 15"
proof -
  from ppm_pixel_data [of "[0xFF0000FF, 0xFF00FF00, 0xFFFF0000, 0xFF808080]" 2 2 reliable
      "''test.ppm''" 0]
  obtain f data where
    r: "opencad_save_to_ppm_file reliable 0 [0xFF0000FF, 0xFF00FF00, 0xFFFF0000, 0xFF808080] 2 2
         ''test.ppm'' = Inr (0, Some f, 0)"
    and c: "contents f = bytes_of (ppm_header 2 2) @ data"
    and d: "file_bytes f = contents f"
    and l: "length data = 3 * (unat (2::size_t) * unat (2::size_t))"
    and b: "\<forall>i k. i < unat (2::size_t) * unat (2::size_t) \<and> k < 8 \<longrightarrow>
                 bit (data ! (3 * i)) k
                   = bit ([0xFF0000FF, 0xFF00FF00, 0xFFFF0000, 0xFF808080 :: uint32_t] ! i) k
               \<and> bit (data ! (3 * i + 1)) k
                   = bit ([0xFF0000FF, 0xFF00FF00, 0xFFFF0000, 0xFF808080 :: uint32_t] ! i) (8 + k)
               \<and> bit (data ! (3 * i + 2)) k
                   = bit ([0xFF0000FF, 0xFF00FF00, 0xFFFF0000, 0xFF808080 :: uint32_t] ! i) (16 + k)"
    by (auto simp: reliable_def errno_after_close_def)
  from b [rule_format, of 3 7] have "bit (data ! 10) 7 = bit (0xFF808080 :: uint32_t) 15"
    by simp
  with r c d l show ?thesis by auto
qed

lemma save_open_fails:
  "fopen_errno sys file_path = Some e \<Longrightarrow>
   opencad_save_to_ppm_file sys errno pixels width height file_path = Inr (e, None, e)"
  by (simp add: opencad_save_to_ppm_file_def fopen_def return_defer_None)

lemma save_write_fails:
  assumes "length pixels = unat width * unat height" "unat width * unat height < 2 ^ 64"
    and "fopen_errno sys file_path = None"
    and "m \<le> unat width * unat height"
    and "\<forall>k. k < m \<longrightarrow> write_errno sys k = None"
    and "write_errno sys m = Some e"
  shows "opencad_save_to_ppm_file sys errno pixels width height file_path =
           Inr (e, Some \<lparr>contents = bytes_of (ppm_header width height)
                                      @ concat (map pixel_bytes (take m pixels)),
                         error_indicator = True, calls = m + 1, closed = True,
                         file_bytes = take (reached_file sys)
                                        (bytes_of (ppm_header width height)
                                         @ concat (map pixel_bytes (take m pixels)))\<rparr>,
                errno_after_close sys e)"
proof (cases m)
  case 0
  then show ?thesis
    using assms(3,6)
    by (simp add: opencad_save_to_ppm_file_def fopen_def stream_write_def ferror_def
        return_defer_Some flushed_def)
next
  case (Suc m')
  let ?f0 = "\<lparr>contents = bytes_of (ppm_header width height), error_indicator = False,
               calls = 1, closed = False, file_bytes = []\<rparr>"
  have n: "unat (width * height) = length pixels"
    using assms(1,2) by (simp add: unat_size_mult)
  have w0: "write_errno sys 0 = None"
    using assms(5) Suc by simp
  have "save_pixels sys pixels (width * height) 0 ?f0 errno =
          Inr (e, ?f0\<lparr>contents := contents ?f0
                 @ concat (map pixel_bytes (take (Suc (m' - unat (0::size_t)))
                                                 (drop (unat (0::size_t)) pixels))),
               error_indicator := True,
               calls := calls ?f0 + (m' - unat (0::size_t)) + 1\<rparr>, e)"
  proof (rule save_pixels_fail)
    show "unat (width * height) \<le> length pixels" using n by simp
    show "\<not> error_indicator ?f0" by simp
    show "unat (0::size_t) \<le> m'" by simp
    show "m' < unat (width * height)" using n assms(1,4) Suc by simp
    show "\<forall>j. j < m' - unat (0::size_t) \<longrightarrow> write_errno sys (calls ?f0 + j) = None"
      using assms(5) Suc by simp
    show "write_errno sys (calls ?f0 + (m' - unat (0::size_t))) = Some e"
      using assms(6) Suc by simp
  qed
  then show ?thesis
    using assms(3) w0 Suc by (simp add: save_header_step return_defer_Some flushed_def)
qed

lemma save_succeeds:
  assumes "length pixels = unat width * unat height" "unat width * unat height < 2 ^ 64"
    and "fopen_errno sys file_path = None"
    and "\<forall>k. k \<le> unat width * unat height \<longrightarrow> write_errno sys k = None"
  shows "opencad_save_to_ppm_file sys errno pixels width height file_path =
           Inr (0, Some \<lparr>contents = bytes_of (ppm_header width height)
                                      @ concat (map pixel_bytes pixels),
                         error_indicator = False, calls = 1 + length pixels, closed = True,
                         file_bytes =
                           (if fclose_errno sys = None
                            then bytes_of (ppm_header width height) @ concat (map pixel_bytes pixels)
                            else take (reached_file sys)
                                   (bytes_of (ppm_header width height)
                                    @ concat (map pixel_bytes pixels)))\<rparr>,
                errno_after_close sys errno)"
proof -
  let ?f0 = "\<lparr>contents = bytes_of (ppm_header width height), error_indicator = False,
               calls = 1, closed = False, file_bytes = []\<rparr>"
  have n: "unat (width * height) = length pixels"
    using assms(1,2) by (simp add: unat_size_mult)
  have "save_pixels sys pixels (width * height) 0 ?f0 errno =
          Inr (0, ?f0\<lparr>contents := contents ?f0
                 @ concat (map pixel_bytes (take (unat (width * height) - unat (0::size_t))
                                                 (drop (unat (0::size_t)) pixels))),
               calls := calls ?f0 + (unat (width * height) - unat (0::size_t))\<rparr>, errno)"
  proof (rule save_pixels_ok)
    show "unat (width * height) \<le> length pixels" using n by simp
    show "\<not> error_indicator ?f0" by simp
    show "\<forall>j. j < unat (width * height) - unat (0::size_t) \<longrightarrow> write_errno sys (calls ?f0 + j) = None"
      using assms(4) n assms(1) by simp
  qed
  then show ?thesis
    using assms(3,4) n by (simp add: save_header_step return_defer_Some flushed_def)
qed

text \<open>
  What the source does check.  On a system that reports every failure with a nonzero
  \<^verbatim>\<open>errno\<close>, and for a buffer of exactly \<open>width * height\<close> pixels, the writer returns 0
  exactly when the file opens and the header call and all \<open>width * height\<close> pixel calls
  leave the error indicator of the stream clear.  When \<^verbatim>\<open>fopen\<close> fails it returns that
  failure's \<^verbatim>\<open>errno\<close> and opens no stream; when write call number \<open>m\<close> is the first to set
  the error indicator it returns that failure's \<^verbatim>\<open>errno\<close>, makes no further write call
  (\<open>m + 1\<close> calls in all) and closes the stream.  The flush inside \<^verbatim>\<open>fclose\<close> takes no part
  in the result.
\<close>

lemma save_to_ppm_file_checked_calls:
  assumes "length pixels = unat width * unat height" "unat width * unat height < 2 ^ 64"
    and "\<forall>p e. fopen_errno sys p = Some e \<longrightarrow> e \<noteq> 0"
    and "\<forall>k e. write_errno sys k = Some e \<longrightarrow> e \<noteq> 0"
  shows "\<exists>result stream errno'.
           opencad_save_to_ppm_file sys errno pixels width height file_path
             = Inr (result, stream, errno')
         \<and> (result = 0 \<longleftrightarrow>
              fopen_errno sys file_path = None
              \<and> (\<forall>k. k \<le> unat width * unat height \<longrightarrow> write_errno sys k = None))
         \<and> (\<forall>e. fopen_errno sys file_path = Some e \<longrightarrow> result = e \<and> stream = None)
         \<and> (\<forall>m e. fopen_errno sys file_path = None \<and> m \<le> unat width * unat height
                 \<and> (\<forall>k. k < m \<longrightarrow> write_errno sys k = None) \<and> write_errno sys m = Some e
               \<longrightarrow> result = e
                 \<and> (\<exists>f. stream = Some f \<and> calls f = m + 1 \<and> closed f
                        \<and> contents f = bytes_of (ppm_header width height)
                                         @ concat (map pixel_bytes (take m pixels))))"
proof (cases "fopen_errno sys file_path")
  case (Some e)
  then have "e \<noteq> 0" using assms(3) by blast
  then show ?thesis
    using Some save_open_fails [OF Some, of errno pixels width height] by simp
next
  case None
  let ?n = "unat width * unat height"
  show ?thesis
  proof (cases "\<forall>k. k \<le> ?n \<longrightarrow> write_errno sys k = None")
    case True
    then show ?thesis
      using None save_succeeds [OF assms(1,2) None True, of errno] by auto
  next
    case False
    then obtain k0 where k0: "k0 \<le> ?n" "write_errno sys k0 \<noteq> None" by blast
    define m where "m = (LEAST k. write_errno sys k \<noteq> None)"
    have m1: "write_errno sys m \<noteq> None"
      unfolding m_def using k0(2) by (rule LeastI)
    have m2: "m \<le> k0"
      unfolding m_def using k0(2) by (rule Least_le)
    have m3: "\<forall>k. k < m \<longrightarrow> write_errno sys k = None"
      unfolding m_def using not_less_Least by blast
    from m1 obtain e where e: "write_errno sys m = Some e" by auto
    then have e0: "e \<noteq> 0" using assms(4) by blast
    have mn: "m \<le> ?n" using m2 k0(1) by simp
    define g where "g = \<lparr>contents = bytes_of (ppm_header width height)
                                      @ concat (map pixel_bytes (take m pixels)),
                         error_indicator = True, calls = m + 1, closed = True,
                         file_bytes = take (reached_file sys)
                                        (bytes_of (ppm_header width height)
                                         @ concat (map pixel_bytes (take m pixels)))\<rparr>"
    have res: "opencad_save_to_ppm_file sys errno pixels width height file_path =
           Inr (e, Some g, errno_after_close sys e)"
      unfolding g_def by (rule save_write_fails [OF assms(1,2) None mn m3 e])
    have uniq: "m' = m \<and> e' = e"
      if "\<forall>k. k < m' \<longrightarrow> write_errno sys k = None" "write_errno sys m' = Some e'" for m' e'
    proof -
      have "\<not> m' < m" using that(2) m3 by auto
      moreover have "\<not> m < m'" using that(1) e by auto
      ultimately have "m' = m" by simp
      then show ?thesis using that(2) e by simp
    qed
    show ?thesis
    proof (intro exI conjI)
      show "opencad_save_to_ppm_file sys errno pixels width height file_path =
           Inr (e, Some g, errno_after_close sys e)"
        by (rule res)
      show "(e = 0) = (fopen_errno sys file_path = None
              \<and> (\<forall>k. k \<le> unat width * unat height \<longrightarrow> write_errno sys k = None))"
        using e0 False by blast
      show "\<forall>e'. fopen_errno sys file_path = Some e' \<longrightarrow> e = e' \<and> Some g = None"
        using None by simp
      show "\<forall>m' e'. fopen_errno sys file_path = None \<and> m' \<le> unat width * unat height
                 \<and> (\<forall>k. k < m' \<longrightarrow> write_errno sys k = None) \<and> write_errno sys m' = Some e'
               \<longrightarrow> e = e'
                 \<and> (\<exists>f. Some g = Some f \<and> calls f = m' + 1 \<and> closed f
                        \<and> contents f = bytes_of (ppm_header width height)
                                         @ concat (map pixel_bytes (take m' pixels)))"
      proof (intro allI impI)
        fix m' e'
        assume a: "fopen_errno sys file_path = None \<and> m' \<le> unat width * unat height
                 \<and> (\<forall>k. k < m' \<longrightarrow> write_errno sys k = None) \<and> write_errno sys m' = Some e'"
        then have "m' = m \<and> e' = e" using uniq [of m' e'] by blast
        then show "e = e'
                 \<and> (\<exists>f. Some g = Some f \<and> calls f = m' + 1 \<and> closed f
                        \<and> contents f = bytes_of (ppm_header width height)
                                         @ concat (map pixel_bytes (take m' pixels)))"
          by (simp add: g_def)
      qed
    qed
  qed
qed

lemma save_to_missing_directory:
  "opencad_save_to_ppm_file no_such_directory 0 [1, 2, 3, 4] 2 2 ''missing/test.ppm''
     = Inr (2, None, 2)"
  by (simp add: save_open_fails no_such_directory_def)

text \<open>
  The flush that is not checked.  When the file opens and no write call sets the error
  indicator, the writer returns 0 whatever \<^verbatim>\<open>fclose\<close> does: if the flush inside \<^verbatim>\<open>fclose\<close>
  fails, the file holds only the first \<open>reached_file\<close> bytes of the image, \<^verbatim>\<open>errno\<close> is the
  one of that failure, and the result is still 0.
\<close>

lemma save_to_ppm_file_close_unchecked:
  assumes "length pixels = unat width * unat height" "unat width * unat height < 2 ^ 64"
    and "fopen_errno sys file_path = None"
    and "\<forall>k. k \<le> unat width * unat height \<longrightarrow> write_errno sys k = None"
    and "fclose_errno sys = Some e"
  shows "\<exists>f. opencad_save_to_ppm_file sys errno pixels width height file_path = Inr (0, Some f, e)
           \<and> file_bytes f = take (reached_file sys)
                                (bytes_of (ppm_header width height) @ concat (map pixel_bytes pixels))"
  using save_succeeds [OF assms(1-4), of errno] assms(5)
  by (simp add: errno_after_close_def)

text \<open>
  Claim C8 against the source.  The claim is that the writer returns 0 exactly when
  opening and all header and pixel writes succeed, and the nonzero \<^verbatim>\<open>errno\<close> of the failure
  whenever a write or stream error occurs.  The source checks \<^verbatim>\<open>ferror\<close> after every write
  call but drops the result of \<^verbatim>\<open>fclose\<close>, whose flush is where a buffered write fails.
  On the 2 by 2 buffer of the specification, on a full device: all five write calls leave
  the error indicator clear, the flush in \<^verbatim>\<open>fclose\<close> fails with \<^verbatim>\<open>ENOSPC\<close> (28), the file holds
  14 of the 23 bytes, and the writer returns 0.
\<close>

theorem save_to_ppm_file_drops_close_error:
  "opencad_save_to_ppm_file full_at_close 0 [0xFF0000FF, 0xFF00FF00, 0xFFFF0000, 0xFF808080] 2 2
       ''test.ppm''
     = Inr (0,
            Some \<lparr>contents = bytes_of ''P6\<newline>2 2 255\<newline>''
                               @ [0xFF, 0, 0, 0, 0xFF, 0, 0, 0, 0xFF, 0x80, 0x80, 0x80],
                  error_indicator = False, calls = 5, closed = True,
                  file_bytes = bytes_of ''P6\<newline>2 2 255\<newline>'' @ [0xFF, 0, 0]\<rparr>,
            28)"
  by code_simp

section \<open>Rectangles, circles and lines: results\<close>

lemma is_int_int_of_size: "is_int (int_of_size n)"
  using sint_ge [of "ucast n :: 32 word"] sint_lt [of "ucast n :: 32 word"]
  by (simp add: is_int_def int_of_size_def INT_MIN_def INT_MAX_def)

lemma nat_less_unat: "0 \<le> x \<Longrightarrow> x < uint w \<Longrightarrow> nat x < unat w"
  unfolding uint_nat by arith

lemma unat_le_of_uint: "uint w \<le> INT_MAX \<Longrightarrow> unat w \<le> 2147483647"
  unfolding uint_nat INT_MAX_def by arith

lemma int_of_size_eq:
  assumes "uint n \<le> INT_MAX"
  shows "int_of_size n = uint n"
proof -
  have u: "uint n \<le> 2147483647"
    using assms by (simp add: INT_MAX_def)
  have "uint (ucast n :: 32 word) = take_bit 32 (uint n)"
    by (simp add: unsigned_ucast_eq)
  also have "\<dots> = uint n"
    using u by (simp add: take_bit_int_eq_self)
  finally have eq: "uint (ucast n :: 32 word) = uint n" .
  have "sint (ucast n :: 32 word) = signed_take_bit 31 (uint n)"
    by (simp add: sint_uint eq)
  also have "\<dots> = uint n"
    using u by (simp add: signed_take_bit_int_eq_self_iff) (use uint_ge_0 [of n] in linarith)
  finally show ?thesis
    by (simp only: int_of_size_def)
qed

lemma unat_size_of_int: "0 \<le> v \<Longrightarrow> v < 2 ^ 64 \<Longrightarrow> unat (size_of_int v) = nat v"
  by (simp add: size_of_int_def unsigned_of_int take_bit_int_eq_self)

lemma unat_px_index:
  assumes "uint w \<le> INT_MAX" "0 \<le> x" "x \<le> INT_MAX" "0 \<le> y" "y \<le> INT_MAX"
  shows "unat (size_of_int y * w + size_of_int x) = px_index w x y"
proof -
  have y: "unat (size_of_int y) = nat y"
    using assms by (simp add: unat_size_of_int INT_MAX_def)
  have x: "unat (size_of_int x) = nat x"
    using assms by (simp add: unat_size_of_int INT_MAX_def)
  have "nat y * unat w \<le> 2147483647 * 2147483647"
    using assms unat_le_of_uint [OF assms(1)] by (intro mult_mono) (auto simp: INT_MAX_def)
  then have b: "nat y * unat w + nat x < 2 ^ 64"
    using assms by (simp add: INT_MAX_def)
  then have "nat y * unat w < 2 ^ 64" by simp
  then show ?thesis
    using b by (simp add: unat_word_ariths x y px_index_def)
qed

lemma px_index_less:
  assumes "0 \<le> x" "x < uint w" "0 \<le> y" "y < uint h"
  shows "px_index w x y < unat w * unat h"
proof -
  have "nat y * unat w + nat x < nat y * unat w + unat w"
    using nat_less_unat [OF assms(1,2)] by simp
  also have "\<dots> = (nat y + 1) * unat w" by simp
  also have "\<dots> \<le> unat h * unat w"
    using nat_less_unat [OF assms(3,4)] by (intro mult_right_mono) auto
  finally show ?thesis by (simp add: px_index_def mult.commute)
qed

lemma px_index_inj:
  assumes "px_index w x y = px_index w x' y'"
    and "0 \<le> x" "x < uint w" "0 \<le> y" "0 \<le> x'" "x' < uint w" "0 \<le> y'"
  shows "x = x' \<and> y = y'"
proof -
  have e: "nat x + nat y * unat w = nat x' + nat y' * unat w"
    using assms(1) by (simp add: px_index_def add.commute)
  have lx: "nat x < unat w" and lx': "nat x' < unat w"
    using assms by (auto intro: nat_less_unat)
  have "(nat x + nat y * unat w) div unat w = nat y" using lx by simp
  moreover have "(nat x' + nat y' * unat w) div unat w = nat y'" using lx' by simp
  ultimately have yy: "nat y = nat y'" using e by simp
  then have "nat x = nat x'" using e by simp
  then show ?thesis using yy assms(2,4,5,7) by arith
qed

lemma nth_paint_region:
  assumes "length p = unat w * unat h"
    and "0 \<le> x" "x < uint w" "0 \<le> y" "y < uint h"
  shows "paint (region w h P) c p ! px_index w x y = (if P x y then c else p ! px_index w x y)"
proof -
  have "px_index w x y \<in> region w h P \<longleftrightarrow> P x y"
  proof
    assume "px_index w x y \<in> region w h P"
    then obtain x' y' where "px_index w x y = px_index w x' y'"
      "0 \<le> x'" "x' < uint w" "0 \<le> y'" "P x' y'"
      by (auto simp: region_def)
    then show "P x y" using px_index_inj [of w x y x' y'] assms by simp
  next
    assume "P x y"
    then show "px_index w x y \<in> region w h P"
      using assms by (auto simp: region_def)
  qed
  then show ?thesis
    using px_index_less [OF assms(2-5)] assms(1) by (simp add: nth_paint)
qed

lemma store_px_paint:
  assumes "length p = unat w * unat h" "uint w \<le> INT_MAX" "uint h \<le> INT_MAX"
    and "0 \<le> x" "x < uint w" "0 \<le> y" "y < uint h"
  shows "store_px p w x y c = Inr (paint {px_index w x y} c p)"
proof -
  have "unat (size_of_int y * w + size_of_int x) = px_index w x y"
    using assms by (intro unat_px_index) auto
  then show ?thesis
    using px_index_less [OF assms(4-7)] assms(1) by (simp add: store_px_def store_paint)
qed

lemma for_le_paint:
  assumes "INT_MIN \<le> i" "hi < INT_MAX"
    and body: "\<And>k q. i \<le> k \<Longrightarrow> k \<le> hi \<Longrightarrow> length q = length p
                 \<Longrightarrow> body k q = Inr (paint (S k) c q)"
  shows "for_le i hi body p = Inr (paint (\<Union>k\<in>{i..hi}. S k) c p)"
proof -
  have "\<exists>p'. for_le i hi body p = Inr p' \<and> length p' = length p"
    by (rule for_le_defined [OF assms(1,2)]) (simp_all add: body)
  then obtain p' where p': "for_le i hi body p = Inr p'" by blast
  have "p' = paint (\<Union>k\<in>{i..hi}. S k) c p"
    by (rule for_le_result [OF p']) (simp add: body)
  with p' show ?thesis by simp
qed

lemma for_lt_paint:
  assumes "INT_MIN \<le> i" "hi \<le> INT_MAX"
    and body: "\<And>k q. i \<le> k \<Longrightarrow> k < hi \<Longrightarrow> length q = length p
                 \<Longrightarrow> body k q = Inr (paint (S k) c q)"
  shows "for_lt i hi body p = Inr (paint (\<Union>k\<in>{i..<hi}. S k) c p)"
proof -
  have "for_le i (hi - 1) body p = Inr (paint (\<Union>k\<in>{i..hi - 1}. S k) c p)"
    by (rule for_le_paint) (use assms in auto)
  moreover have "{i..hi - 1} = {i..<hi}" by auto
  ultimately show ?thesis by (simp add: for_lt_for_le)
qed

lemma paint_cong_set: "S = T \<Longrightarrow> paint S c p = paint T c p"
  by simp

text \<open>
  Claim C6, as amended.  The buffer is an array of exactly \<open>width * height\<close> pixels.
  The source casts the buffer dimensions and the rectangle extents \<open>w\<close>, \<open>h\<close> to
  \<^verbatim>\<open>int\<close> and adds the offsets to \<open>x0\<close>, \<open>y0\<close> in \<^verbatim>\<open>int\<close>.  When all four sizes are
  at most \<^verbatim>\<open>INT_MAX\<close> and the far edges \<open>x0 + w\<close>, \<open>y0 + h\<close> do not exceed
  \<^verbatim>\<open>INT_MAX + 1\<close>, \<open>opencad_fill_rect\<close> reports no error, sets exactly the pixels of
  \<open>[x0, x0 + w) \<times> [y0, y0 + h)\<close> that lie in the buffer to the colour, and leaves every
  other pixel unchanged; a rectangle disjoint from the buffer changes nothing.
\<close>

theorem opencad_fill_rect_clipped:
  assumes "length pixels = unat pixels_width * unat pixels_height"
    and "uint pixels_width \<le> INT_MAX" "uint pixels_height \<le> INT_MAX"
    and "uint w \<le> INT_MAX" "uint h \<le> INT_MAX"
    and "INT_MIN \<le> x0" "x0 + uint w \<le> INT_MAX + 1"
    and "INT_MIN \<le> y0" "y0 + uint h \<le> INT_MAX + 1"
  shows "\<exists>pixels'.
           opencad_fill_rect pixels pixels_width pixels_height x0 y0 w h color = Inr pixels'
         \<and> length pixels' = length pixels
         \<and> (\<forall>x y. 0 \<le> x \<and> x < uint pixels_width \<and> 0 \<le> y \<and> y < uint pixels_height
              \<longrightarrow> pixels' ! px_index pixels_width x y =
                    (if x0 \<le> x \<and> x < x0 + uint w \<and> y0 \<le> y \<and> y < y0 + uint h
                     then color else pixels ! px_index pixels_width x y))"
proof -
  let ?W = "uint pixels_width" and ?H = "uint pixels_height"
  let ?w = "uint w" and ?h = "uint h"
  let ?Sx = "\<lambda>y dx. if 0 \<le> x0 + dx \<and> x0 + dx < ?W then {px_index pixels_width (x0 + dx) y} else {}"
  let ?Sy = "\<lambda>dy. if 0 \<le> y0 + dy \<and> y0 + dy < ?H then (\<Union>dx\<in>{0..<?w}. ?Sx (y0 + dy) dx) else {}"
  let ?P = "\<lambda>x y. x0 \<le> x \<and> x < x0 + ?w \<and> y0 \<le> y \<and> y < y0 + ?h"
  note casts = int_of_size_eq [OF assms(2)] int_of_size_eq [OF assms(3)]
    int_of_size_eq [OF assms(4)] int_of_size_eq [OF assms(5)]
  have cell: "ub_bind (int_add x0 dx) (\<lambda>x.
                 if 0 \<le> x \<and> x < ?W then store_px q pixels_width x y color else Inr q)
              = Inr (paint (?Sx y dx) color q)"
    if "0 \<le> dx" "dx < ?w" "0 \<le> y" "y < ?H" "length q = length pixels" for dx y q
  proof -
    have "is_int (x0 + dx)" using that assms(6,7) by (simp add: is_int_def)
    then show ?thesis
      using that assms(1-3)
      by (simp add: int_add_def int_val_is_int store_px_paint [where h = pixels_height])
  qed
  have row: "for_lt 0 ?w (\<lambda>dx pixels. ub_bind (int_add x0 dx) (\<lambda>x.
                 if 0 \<le> x \<and> x < ?W then store_px pixels pixels_width x y color else Inr pixels)) q
             = Inr (paint (\<Union>dx\<in>{0..<?w}. ?Sx y dx) color q)"
    if "0 \<le> y" "y < ?H" "length q = length pixels" for y q
    by (rule for_lt_paint) (use that assms(4) cell in \<open>auto simp: INT_MIN_def\<close>)
  have rows: "ub_bind (int_add y0 dy) (\<lambda>y.
                 if 0 \<le> y \<and> y < ?H
                 then for_lt 0 ?w (\<lambda>dx pixels. ub_bind (int_add x0 dx) (\<lambda>x.
                        if 0 \<le> x \<and> x < ?W then store_px pixels pixels_width x y color
                        else Inr pixels)) q
                 else Inr q)
              = Inr (paint (?Sy dy) color q)"
    if "0 \<le> dy" "dy < ?h" "length q = length pixels" for dy q
  proof -
    have "is_int (y0 + dy)" using that assms(8,9) by (simp add: is_int_def)
    then show ?thesis
      using that row by (simp add: int_add_def int_val_is_int)
  qed
  have res: "opencad_fill_rect pixels pixels_width pixels_height x0 y0 w h color
               = Inr (paint (\<Union>dy\<in>{0..<?h}. ?Sy dy) color pixels)"
    unfolding opencad_fill_rect_def casts
    by (rule for_lt_paint) (use assms(5) rows in \<open>auto simp: INT_MIN_def\<close>)
  have set: "(\<Union>dy\<in>{0..<?h}. ?Sy dy) = region pixels_width pixels_height ?P"
  proof (intro set_eqI iffI)
    fix j assume "j \<in> (\<Union>dy\<in>{0..<?h}. ?Sy dy)"
    then obtain dy dx where "0 \<le> dy" "dy < ?h" "0 \<le> y0 + dy" "y0 + dy < ?H"
      "0 \<le> dx" "dx < ?w" "0 \<le> x0 + dx" "x0 + dx < ?W" "j = px_index pixels_width (x0 + dx) (y0 + dy)"
      by (auto split: if_splits)
    then show "j \<in> region pixels_width pixels_height ?P"
      unfolding region_def by (intro CollectI exI [of _ "x0 + dx"] exI [of _ "y0 + dy"]) simp
  next
    fix j assume "j \<in> region pixels_width pixels_height ?P"
    then obtain x y where xy: "j = px_index pixels_width x y" "0 \<le> x" "x < ?W" "0 \<le> y" "y < ?H"
      "x0 \<le> x" "x < x0 + ?w" "y0 \<le> y" "y < y0 + ?h"
      by (auto simp: region_def)
    have "j \<in> ?Sy (y - y0)"
      using xy by (auto intro!: bexI [of _ "x - x0"])
    moreover have "y - y0 \<in> {0..<?h}" using xy by simp
    ultimately show "j \<in> (\<Union>dy\<in>{0..<?h}. ?Sy dy)" by blast
  qed
  show ?thesis
    using res assms(1) by (simp only: set) (simp add: nth_paint_region)
qed


theorem opencad_fill_rect_clipped_witness:
  "\<exists>pixels'. opencad_fill_rect [0, 0, 0, 0, 0, 0] 3 2 (- 1) 0 3 5 7 = Inr pixels'
      \<and> length pixels' = 6
      \<and> pixels' ! px_index 3 1 1 = 7
      \<and> pixels' ! px_index 3 2 1 = 0"
proof -
  from opencad_fill_rect_clipped [of "[0, 0, 0, 0, 0, 0]" 3 2 3 5 "- 1" 0 7]
  obtain pixels' where r: "opencad_fill_rect [0, 0, 0, 0, 0, 0] 3 2 (- 1) 0 3 5 7 = Inr pixels'"
    and l: "length pixels' = length [0, 0, 0, 0, 0, 0 :: uint32_t]"
    and p: "\<forall>x y. 0 \<le> x \<and> x < uint (3::size_t) \<and> 0 \<le> y \<and> y < uint (2::size_t)
              \<longrightarrow> pixels' ! px_index 3 x y =
                    (if - 1 \<le> x \<and> x < - 1 + uint (3::size_t) \<and> 0 \<le> y \<and> y < 0 + uint (5::size_t)
                     then 7 else [0, 0, 0, 0, 0, 0 :: uint32_t] ! px_index 3 x y)"
    by (auto simp: INT_MAX_def INT_MIN_def)
  from p [rule_format, of 1 1] have "pixels' ! px_index 3 1 1 = 7" by simp
  moreover from p [rule_format, of 2 1] have "pixels' ! px_index 3 2 1 = 0"
    by (simp add: px_index_def)
  ultimately show ?thesis using r l by simp
qed

text \<open>
  Claim C6, as stated, fails.  A rectangle of width \<open>2 ^ 31\<close> at the origin covers the
  single pixel of a 1 by 1 buffer, but \<^verbatim>\<open>(int) w\<close> is negative and nothing is drawn.  And
  for a rectangle that starts at \<^verbatim>\<open>INT_MAX\<close>, outside the buffer, the addition
  \<open>x0 + dx\<close> overflows, which is undefined behaviour rather than a silent no-op.
\<close>

theorem opencad_fill_rect_counterexample:
  "opencad_fill_rect [0] 1 1 0 0 2147483648 1 7 = Inr [0]
   \<and> opencad_fill_rect [0] 1 1 2147483647 0 2 1 7 = Inl Signed_Overflow"
  by (simp add: opencad_fill_rect_def for_lt.simps int_of_size_def int_add_def int_val_def
      is_int_def INT_MIN_def INT_MAX_def)

lemma square_le_of_abs_le: "\<bar>a\<bar> \<le> r \<Longrightarrow> a * a \<le> r * (r::int)"
proof -
  assume a: "\<bar>a\<bar> \<le> r"
  then have "\<bar>a\<bar> * \<bar>a\<bar> \<le> r * r" by (intro mult_mono) auto
  then show ?thesis by (simp add: abs_mult_self_eq)
qed

lemma abs_le_of_square_le:
  assumes "a * a + b * b \<le> r * (r::int)" "0 \<le> r"
  shows "\<bar>a\<bar> \<le> r"
proof (rule ccontr)
  assume "\<not> \<bar>a\<bar> \<le> r"
  then have "r + 1 \<le> \<bar>a\<bar>" by simp
  then have "(r + 1) * (r + 1) \<le> \<bar>a\<bar> * \<bar>a\<bar>"
    using assms(2) by (intro mult_mono) auto
  then have "r * r < a * a" using assms(2) by (simp add: abs_mult_self_eq algebra_simps)
  moreover have "0 \<le> b * b" by simp
  ultimately show False using assms(1) by linarith
qed

text \<open>
  Claim C9, as amended.  For a negative radius the corners \<open>cx - r\<close>, \<open>cy - r\<close>,
  \<open>cx + r\<close>, \<open>cy + r\<close> of the bounding box are computed first.  If all four are
  representable the row loop is empty and the buffer is returned unchanged; otherwise
  the computation overflows, which is undefined behaviour.
\<close>

theorem opencad_fill_circle_negative_radius:
  assumes "r < 0"
  shows "opencad_fill_circle pixels pixels_width pixels_height cx cy r color =
           (if is_int (cx - r) \<and> is_int (cy - r) \<and> is_int (cx + r) \<and> is_int (cy + r)
            then Inr pixels else Inl Signed_Overflow)"
  using assms
  by (simp add: opencad_fill_circle_def int_sub_def int_add_def int_val_def for_le_empty)

theorem opencad_fill_circle_negative_radius_witness:
  "opencad_fill_circle [1, 2, 3, 4] 2 2 1 1 (- 3) 9 = Inr [1, 2, 3, 4]"
  using opencad_fill_circle_negative_radius [of "- 3" "[1, 2, 3, 4]" 2 2 1 1 9]
  by (simp add: is_int_def INT_MIN_def INT_MAX_def)

text \<open>
  Claim C9, as stated, fails at the centre \<open>(INT_MAX, INT_MAX)\<close> with radius \<open>-2\<close>:
  \<open>cx - r\<close> overflows.  (With wrap-around the box becomes
  \<open>[INT_MIN + 1, INT_MAX - 2]\<close> in both directions and the pixel \<open>(0, 0)\<close> passes the
  wrapped distance test \<open>1 + 1 \<le> 4\<close>.)
\<close>

theorem opencad_fill_circle_negative_radius_counterexample:
  "opencad_fill_circle [0] 1 1 2147483647 2147483647 (- 2) 7 = Inl Signed_Overflow"
  by (simp add: opencad_fill_circle_def int_sub_def int_add_def int_val_def
      is_int_def INT_MIN_def INT_MAX_def)

text \<open>
  Claim C3, as amended.  All arithmetic of \<open>opencad_fill_circle\<close> is \<^verbatim>\<open>int\<close>
  arithmetic.  For a buffer of exactly \<open>width * height\<close> pixels with dimensions at most
  \<^verbatim>\<open>INT_MAX\<close>, a radius \<open>r \<ge> 0\<close> with \<open>2 * r * r \<le> INT_MAX\<close> (so that no squared
  distance inside the bounding box overflows), and a bounding box with
  \<open>INT_MIN \<le> cx - r\<close>, \<open>cx + r < INT_MAX\<close>, \<open>INT_MIN \<le> cy - r\<close>, \<open>cy + r < INT_MAX\<close>, the
  call is defined and afterwards a pixel of the buffer holds the new colour if it lies in
  the disk \<open>(x - cx)\<^sup>2 + (y - cy)\<^sup>2 \<le> r\<^sup>2\<close> and its old value otherwise.  Hence it holds
  the new colour exactly if it lies in the disk or held that colour before.
\<close>

theorem opencad_fill_circle_disk:
  assumes "length pixels = unat pixels_width * unat pixels_height"
    and "uint pixels_width \<le> INT_MAX" "uint pixels_height \<le> INT_MAX"
    and "0 \<le> r" "2 * (r * r) \<le> INT_MAX"
    and "INT_MIN \<le> cx - r" "cx + r < INT_MAX"
    and "INT_MIN \<le> cy - r" "cy + r < INT_MAX"
  shows "\<exists>pixels'.
           opencad_fill_circle pixels pixels_width pixels_height cx cy r color = Inr pixels'
         \<and> length pixels' = length pixels
         \<and> (\<forall>x y. 0 \<le> x \<and> x < uint pixels_width \<and> 0 \<le> y \<and> y < uint pixels_height
              \<longrightarrow> pixels' ! px_index pixels_width x y =
                    (if (x - cx) * (x - cx) + (y - cy) * (y - cy) \<le> r * r
                     then color else pixels ! px_index pixels_width x y))"
proof -
  let ?W = "uint pixels_width" and ?H = "uint pixels_height"
  let ?D = "\<lambda>x y. (x - cx) * (x - cx) + (y - cy) * (y - cy) \<le> r * r"
  let ?Sx = "\<lambda>y x. if 0 \<le> x \<and> x < ?W \<and> ?D x y then {px_index pixels_width x y} else {}"
  let ?Sy = "\<lambda>y. if 0 \<le> y \<and> y < ?H then (\<Union>x\<in>{cx - r..cx + r}. ?Sx y x) else {}"
  note casts = int_of_size_eq [OF assms(2)] int_of_size_eq [OF assms(3)]
  have rr: "is_int (r * r)"
    using assms(5) zero_le_square [of r] unfolding is_int_def INT_MIN_def by linarith
  have r_le: "r \<le> 2147483647"
  proof (cases "r = 0")
    case False
    then have "r * 1 \<le> r * r" using assms(4) by (intro mult_left_mono) auto
    then show ?thesis
      using assms(5) zero_le_square [of r] unfolding INT_MAX_def by linarith
  qed simp
  have sq: "is_int (a * a) \<and> is_int (b * b) \<and> is_int (a * a + b * b)"
    if "\<bar>a\<bar> \<le> r" "\<bar>b\<bar> \<le> r" for a b
  proof -
    have "a * a \<le> r * r" "b * b \<le> r * r"
      using that by (simp_all add: square_le_of_abs_le)
    then show ?thesis
      using assms(5) zero_le_square [of a] zero_le_square [of b]
      unfolding is_int_def INT_MIN_def by linarith
  qed
  have cell: "(if 0 \<le> x \<and> x < ?W
               then ub_bind (int_sub x cx) (\<lambda>dx.
                    ub_bind (int_sub y cy) (\<lambda>dy.
                    ub_bind (int_mul dx dx) (\<lambda>dx2.
                    ub_bind (int_mul dy dy) (\<lambda>dy2.
                    ub_bind (int_add dx2 dy2) (\<lambda>d2.
                    ub_bind (int_mul r r) (\<lambda>r2.
                      if d2 \<le> r2 then store_px q pixels_width x y color else Inr q))))))
               else Inr q)
              = Inr (paint (?Sx y x) color q)"
    if "cx - r \<le> x" "x \<le> cx + r" "cy - r \<le> y" "y \<le> cy + r" "0 \<le> y" "y < ?H"
      "length q = length pixels" for x y q
  proof -
    have ax: "\<bar>x - cx\<bar> \<le> r" and ay: "\<bar>y - cy\<bar> \<le> r" using that by auto
    have "is_int (x - cx)" "is_int (y - cy)"
      using ax ay r_le unfolding is_int_def INT_MIN_def INT_MAX_def by linarith+
    then show ?thesis
      using that sq [OF ax ay] rr assms(1-3)
      by (simp add: int_sub_def int_mul_def int_add_def int_val_is_int
          store_px_paint [where h = pixels_height])
  qed
  have row: "(if 0 \<le> y \<and> y < ?H
              then for_le (cx - r) (cx + r) (\<lambda>x pixels.
                if 0 \<le> x \<and> x < ?W
                then ub_bind (int_sub x cx) (\<lambda>dx.
                     ub_bind (int_sub y cy) (\<lambda>dy.
                     ub_bind (int_mul dx dx) (\<lambda>dx2.
                     ub_bind (int_mul dy dy) (\<lambda>dy2.
                     ub_bind (int_add dx2 dy2) (\<lambda>d2.
                     ub_bind (int_mul r r) (\<lambda>r2.
                       if d2 \<le> r2 then store_px pixels pixels_width x y color
                       else Inr pixels))))))
                else Inr pixels) q
              else Inr q)
             = Inr (paint (?Sy y) color q)"
    if "cy - r \<le> y" "y \<le> cy + r" "length q = length pixels" for y q
  proof (cases "0 \<le> y \<and> y < ?H")
    case False
    then show ?thesis by auto
  next
    case True
    have "for_le (cx - r) (cx + r) (\<lambda>x pixels.
                if 0 \<le> x \<and> x < ?W
                then ub_bind (int_sub x cx) (\<lambda>dx.
                     ub_bind (int_sub y cy) (\<lambda>dy.
                     ub_bind (int_mul dx dx) (\<lambda>dx2.
                     ub_bind (int_mul dy dy) (\<lambda>dy2.
                     ub_bind (int_add dx2 dy2) (\<lambda>d2.
                     ub_bind (int_mul r r) (\<lambda>r2.
                       if d2 \<le> r2 then store_px pixels pixels_width x y color
                       else Inr pixels))))))
                else Inr pixels) q
          = Inr (paint (\<Union>x\<in>{cx - r..cx + r}. ?Sx y x) color q)"
      by (rule for_le_paint [OF assms(6,7)]) (use that True cell in simp)
    then show ?thesis using True by simp
  qed
  have res: "opencad_fill_circle pixels pixels_width pixels_height cx cy r color
               = Inr (paint (\<Union>y\<in>{cy - r..cy + r}. ?Sy y) color pixels)"
  proof -
    have i: "is_int (cx - r)" "is_int (cy - r)" "is_int (cx + r)" "is_int (cy + r)"
      using assms(4,6-9) by (auto simp: is_int_def)
    show ?thesis
      unfolding opencad_fill_circle_def casts
      using i by (simp add: int_sub_def int_add_def int_val_is_int for_le_paint [OF assms(8,9)] row)
  qed
  have set: "(\<Union>y\<in>{cy - r..cy + r}. ?Sy y) = region pixels_width pixels_height ?D"
  proof (intro set_eqI iffI)
    fix j assume "j \<in> (\<Union>y\<in>{cy - r..cy + r}. ?Sy y)"
    then obtain x y where "0 \<le> y" "y < ?H" "0 \<le> x" "x < ?W" "?D x y" "j = px_index pixels_width x y"
      by (auto split: if_splits)
    then show "j \<in> region pixels_width pixels_height ?D"
      unfolding region_def by (intro CollectI exI [of _ x] exI [of _ y]) simp
  next
    fix j assume "j \<in> region pixels_width pixels_height ?D"
    then obtain x y where xy: "j = px_index pixels_width x y" "0 \<le> x" "x < ?W" "0 \<le> y" "y < ?H"
      "?D x y"
      by (auto simp: region_def)
    have "\<bar>x - cx\<bar> \<le> r" by (rule abs_le_of_square_le [OF xy(6) assms(4)])
    moreover have "\<bar>y - cy\<bar> \<le> r"
      by (rule abs_le_of_square_le [OF _ assms(4), of _ "x - cx"]) (use xy(6) in simp)
    ultimately have mem: "x \<in> {cx - r..cx + r}" "y \<in> {cy - r..cy + r}" by auto
    have "j \<in> ?Sx y x" using xy by simp
    then have "j \<in> (\<Union>x\<in>{cx - r..cx + r}. ?Sx y x)" using mem(1) by blast
    then have "j \<in> ?Sy y" using xy by simp
    then show "j \<in> (\<Union>y\<in>{cy - r..cy + r}. ?Sy y)" using mem(2) by blast
  qed
  show ?thesis
    using res assms(1) by (simp only: set) (simp add: nth_paint_region)
qed

theorem opencad_fill_circle_disk_witness:
  "\<exists>pixels'. opencad_fill_circle [0, 0, 0, 0, 0, 0, 0, 0, 0] 3 3 1 1 1 7 = Inr pixels'
      \<and> length pixels' = 9
      \<and> pixels' ! px_index 3 1 0 = 7
      \<and> pixels' ! px_index 3 0 0 = 0"
proof -
  from opencad_fill_circle_disk [of "[0, 0, 0, 0, 0, 0, 0, 0, 0]" 3 3 1 1 1 7]
  obtain pixels' where r: "opencad_fill_circle [0, 0, 0, 0, 0, 0, 0, 0, 0] 3 3 1 1 1 7 = Inr pixels'"
    and l: "length pixels' = length [0, 0, 0, 0, 0, 0, 0, 0, 0 :: uint32_t]"
    and p: "\<forall>x y. 0 \<le> x \<and> x < uint (3::size_t) \<and> 0 \<le> y \<and> y < uint (3::size_t)
              \<longrightarrow> pixels' ! px_index 3 x y =
                    (if (x - 1) * (x - 1) + (y - 1) * (y - 1) \<le> 1 * 1
                     then 7 else [0, 0, 0, 0, 0, 0, 0, 0, 0 :: uint32_t] ! px_index 3 x y)"
    by (auto simp: INT_MAX_def INT_MIN_def)
  from p [rule_format, of 1 0] have "pixels' ! px_index 3 1 0 = 7" by simp
  moreover from p [rule_format, of 0 0] have "pixels' ! px_index 3 0 0 = 0"
    by (simp add: px_index_def)
  ultimately show ?thesis using r l by simp
qed

text \<open>
  Claim C3, as stated, fails for a large radius: with \<open>r = 46341\<close> the product
  \<open>r * r\<close> exceeds \<^verbatim>\<open>INT_MAX\<close>, so the distance test at the centre pixel of a 1 by 1
  buffer is undefined behaviour.  (With wrap-around \<open>r * r\<close> is negative and the centre
  pixel, which lies in the disk, is not set.)
\<close>

theorem opencad_fill_circle_disk_counterexample:
  "opencad_fill_circle [0] 1 1 0 0 46341 7 = Inl Signed_Overflow"
proof -
  define cell :: "int \<Rightarrow> int \<Rightarrow> uint32_t list \<Rightarrow> ub + uint32_t list" where
    "cell = (\<lambda>y x pixels.
                if 0 \<le> x \<and> x < int_of_size 1
                then ub_bind (int_sub x 0) (\<lambda>dx.
                     ub_bind (int_sub y 0) (\<lambda>dy.
                     ub_bind (int_mul dx dx) (\<lambda>dx2.
                     ub_bind (int_mul dy dy) (\<lambda>dy2.
                     ub_bind (int_add dx2 dy2) (\<lambda>d2.
                     ub_bind (int_mul 46341 46341) (\<lambda>r2.
                       if d2 \<le> r2 then store_px pixels 1 x y 7
                       else Inr pixels))))))
                else Inr pixels)"
  define row :: "int \<Rightarrow> uint32_t list \<Rightarrow> ub + uint32_t list" where
    "row = (\<lambda>y pixels. if 0 \<le> y \<and> y < int_of_size 1
                        then for_le (- 46341) 46341 (cell y) pixels else Inr pixels)"
  have c0: "cell 0 0 [0] = Inl Signed_Overflow"
    by (simp add: cell_def int_of_size_def int_sub_def int_mul_def int_add_def int_val_def
        is_int_def INT_MIN_def INT_MAX_def)
  have "for_le (- 46341) 46341 (cell 0) [0] = for_le 0 46341 (cell 0) [0]"
    by (rule for_le_skip) (simp_all add: cell_def INT_MIN_def INT_MAX_def)
  also have "\<dots> = Inl Signed_Overflow"
    by (simp add: for_le_step c0)
  finally have r0: "row 0 [0] = Inl Signed_Overflow"
    by (simp add: row_def int_of_size_def)
  have "for_le (- 46341) 46341 row [0] = for_le 0 46341 row [0]"
    by (rule for_le_skip) (simp_all add: row_def INT_MIN_def INT_MAX_def)
  also have "\<dots> = Inl Signed_Overflow"
    by (simp add: for_le_step r0)
  finally have loop: "for_le (- 46341) 46341 row [0] = Inl Signed_Overflow" .
  have "opencad_fill_circle [0] 1 1 0 0 46341 7 = for_le (- 46341) 46341 row [0]"
    unfolding row_def cell_def opencad_fill_circle_def
    by (simp add: int_sub_def int_add_def int_val_def is_int_def INT_MIN_def INT_MAX_def)
  then show ?thesis by (simp only: loop)
qed

lemma swap_int_order: "(if a > b then swap_int (a, b) else (a, b)) = (min a b, max a b)"
  by (simp add: swap_int_def min_def max_def)

lemma column_paint:
  assumes "length q = unat pixels_width * unat pixels_height"
    and "uint pixels_width \<le> INT_MAX" "uint pixels_height \<le> INT_MAX"
    and "0 \<le> x" "x < uint pixels_width" "INT_MIN \<le> lo" "hi < INT_MAX"
  shows "for_le lo hi (\<lambda>y pixels.
            if 0 \<le> y \<and> y < uint pixels_height then store_px pixels pixels_width x y color
            else Inr pixels) q
         = Inr (paint (region pixels_width pixels_height (\<lambda>x' y'. x' = x \<and> lo \<le> y' \<and> y' \<le> hi))
                  color q)"
proof -
  let ?S = "\<lambda>y. if 0 \<le> y \<and> y < uint pixels_height then {px_index pixels_width x y} else {}"
  have "for_le lo hi (\<lambda>y pixels.
            if 0 \<le> y \<and> y < uint pixels_height then store_px pixels pixels_width x y color
            else Inr pixels) q
        = Inr (paint (\<Union>y\<in>{lo..hi}. ?S y) color q)"
    by (rule for_le_paint [OF assms(6,7)])
       (use assms(1-5) in \<open>simp add: store_px_paint [where h = pixels_height]\<close>)
  moreover have "(\<Union>y\<in>{lo..hi}. ?S y)
      = region pixels_width pixels_height (\<lambda>x' y'. x' = x \<and> lo \<le> y' \<and> y' \<le> hi)"
    using assms(4,5) by (auto simp: region_def split: if_splits)
  ultimately show ?thesis by simp
qed

text \<open>
  Claim C5, as amended.  For a vertical line (\<open>x1 = x2 = x\<close>) with \<open>0 \<le> x < width\<close> on a
  buffer of exactly \<open>width * height\<close> pixels with dimensions at most \<^verbatim>\<open>INT_MAX\<close>, whose
  end rows are below \<^verbatim>\<open>INT_MAX\<close> and whose difference \<open>y2 - y1\<close> (computed by the source
  before it branches) is representable, \<open>opencad_draw_line\<close> is defined, sets exactly
  the pixels of column \<open>x\<close> with a row in \<open>min y1 y2 .. max y1 y2\<close> that lie in the buffer,
  and leaves every other pixel unchanged.  A zero-length line at a point of the buffer
  meets these conditions and sets exactly that pixel.
\<close>

theorem opencad_draw_line_vertical:
  assumes "length pixels = unat pixels_width * unat pixels_height"
    and "uint pixels_width \<le> INT_MAX" "uint pixels_height \<le> INT_MAX"
    and "0 \<le> x" "x < uint pixels_width"
    and "INT_MIN \<le> y1" "y1 < INT_MAX" "INT_MIN \<le> y2" "y2 < INT_MAX" "is_int (y2 - y1)"
  shows "\<exists>pixels'.
           opencad_draw_line pixels pixels_width pixels_height x y1 x y2 color = Inr pixels'
         \<and> length pixels' = length pixels
         \<and> (\<forall>x' y'. 0 \<le> x' \<and> x' < uint pixels_width \<and> 0 \<le> y' \<and> y' < uint pixels_height
              \<longrightarrow> pixels' ! px_index pixels_width x' y' =
                    (if x' = x \<and> min y1 y2 \<le> y' \<and> y' \<le> max y1 y2
                     then color else pixels ! px_index pixels_width x' y'))"
proof -
  note casts = int_of_size_eq [OF assms(2)] int_of_size_eq [OF assms(3)]
  have lo: "INT_MIN \<le> min y1 y2" and hi: "max y1 y2 < INT_MAX"
    using assms(6-9) by auto
  have "opencad_draw_line pixels pixels_width pixels_height x y1 x y2 color
          = Inr (paint (region pixels_width pixels_height
                          (\<lambda>x' y'. x' = x \<and> min y1 y2 \<le> y' \<and> y' \<le> max y1 y2)) color pixels)"
    unfolding opencad_draw_line_def casts swap_int_order
    using assms(4,5,10) column_paint [OF assms(1-5) lo hi]
    by (simp add: int_sub_def int_val_is_int is_int_def INT_MIN_def INT_MAX_def)
  then show ?thesis
    using assms(1) by (simp add: nth_paint_region)
qed

theorem opencad_draw_line_vertical_witness:
  "\<exists>pixels'. opencad_draw_line [0, 0, 0, 0, 0, 0] 2 3 1 1 1 1 7 = Inr pixels'
      \<and> length pixels' = 6
      \<and> pixels' ! px_index 2 1 1 = 7
      \<and> pixels' ! px_index 2 1 0 = 0
      \<and> pixels' ! px_index 2 0 1 = 0"
proof -
  from opencad_draw_line_vertical [of "[0, 0, 0, 0, 0, 0]" 2 3 1 1 1 7]
  obtain pixels' where r: "opencad_draw_line [0, 0, 0, 0, 0, 0] 2 3 1 1 1 1 7 = Inr pixels'"
    and l: "length pixels' = length [0, 0, 0, 0, 0, 0 :: uint32_t]"
    and p: "\<forall>x' y'. 0 \<le> x' \<and> x' < uint (2::size_t) \<and> 0 \<le> y' \<and> y' < uint (3::size_t)
              \<longrightarrow> pixels' ! px_index 2 x' y' =
                    (if x' = 1 \<and> min 1 1 \<le> y' \<and> y' \<le> max 1 1
                     then 7 else [0, 0, 0, 0, 0, 0 :: uint32_t] ! px_index 2 x' y')"
    by (auto simp: INT_MAX_def INT_MIN_def is_int_def)
  from p [rule_format, of 1 1] have "pixels' ! px_index 2 1 1 = 7" by simp
  moreover from p [rule_format, of 1 0] have "pixels' ! px_index 2 1 0 = 0"
    by (simp add: px_index_def)
  moreover from p [rule_format, of 0 1] have "pixels' ! px_index 2 0 1 = 0"
    by (simp add: px_index_def)
  ultimately show ?thesis using r l by simp
qed

text \<open>
  Claim C5, as stated, fails when the span ends at \<^verbatim>\<open>INT_MAX\<close>: the loop
  \<^verbatim>\<open>for (int y = y1; y <= y2; ++y)\<close> increments \<open>y\<close> past \<^verbatim>\<open>INT_MAX\<close>, which is
  undefined behaviour.  (With wrap-around \<open>y <= y2\<close> stays true, the loop runs through
  every row of the column and never ends.)
\<close>

theorem opencad_draw_line_vertical_counterexample:
  "opencad_draw_line [0] 1 1 0 2147483647 0 2147483647 7 = Inl Signed_Overflow"
  by (simp add: opencad_draw_line_def int_sub_def int_val_def is_int_def INT_MIN_def INT_MAX_def
      int_of_size_def swap_int_def for_le.simps)

lemma no_oob_Inr: "I s \<Longrightarrow> no_oob I (Inr s)"
  by (simp add: no_oob_def)

lemma no_oob_if: "(b \<Longrightarrow> no_oob I x) \<Longrightarrow> (\<not> b \<Longrightarrow> no_oob I y) \<Longrightarrow> no_oob I (if b then x else y)"
  by simp

lemma no_oob_int_val: "(\<And>v. no_oob I (f v)) \<Longrightarrow> no_oob I (ub_bind (int_val a) f)"
  by (simp add: int_val_def no_oob_def)

lemma no_oob_int_add: "(\<And>v. no_oob I (f v)) \<Longrightarrow> no_oob I (ub_bind (int_add a b) f)"
  by (simp add: int_add_def no_oob_int_val)

lemma no_oob_int_sub: "(\<And>v. no_oob I (f v)) \<Longrightarrow> no_oob I (ub_bind (int_sub a b) f)"
  by (simp add: int_sub_def no_oob_int_val)

lemma no_oob_int_mul: "(\<And>v. no_oob I (f v)) \<Longrightarrow> no_oob I (ub_bind (int_mul a b) f)"
  by (simp add: int_mul_def no_oob_int_val)

lemma no_oob_int_div: "(\<And>v. no_oob I (f v)) \<Longrightarrow> no_oob I (ub_bind (int_div a b) f)"
  by (simp add: int_div_def no_oob_int_val) (simp add: no_oob_def)

lemma no_oob_case_prod: "(\<And>a b. no_oob I (f a b)) \<Longrightarrow> no_oob I (case p of (a, b) \<Rightarrow> f a b)"
  by (cases p) simp

lemma no_oob_for_le:
  assumes "I p" and "\<And>k q. I q \<Longrightarrow> no_oob I (body k q)"
  shows "no_oob I (for_le i hi body p)"
  unfolding no_oob_def
  by (rule for_le_no_oob [where I = I]) (use assms in \<open>simp_all add: no_oob_def\<close>)

lemma no_oob_for_lt:
  assumes "I p" and "\<And>k q. I q \<Longrightarrow> no_oob I (body k q)"
  shows "no_oob I (for_lt i hi body p)"
  unfolding for_lt_for_le by (rule no_oob_for_le [OF assms])

lemma store_px_guarded:
  assumes "length q = unat w * unat h" "uint w \<le> INT_MAX" "uint h \<le> INT_MAX"
    and "0 \<le> x" "x < int_of_size w" "0 \<le> y" "y < int_of_size h"
  shows "store_px q w x y c = Inr (q[px_index w x y := c]) \<and> px_index w x y < unat w * unat h"
proof -
  have x: "x < uint w" and y: "y < uint h"
    using assms by (simp_all add: int_of_size_eq)
  have "unat (size_of_int y * w + size_of_int x) = px_index w x y"
    using assms x y by (intro unat_px_index) auto
  then show ?thesis
    using px_index_less [OF assms(4) x assms(6) y] assms(1) by (simp add: store_px_def store_def)
qed

lemma no_oob_store_px:
  assumes "length q = unat w * unat h" "uint w \<le> INT_MAX" "uint h \<le> INT_MAX"
    and "0 \<le> x \<and> x < int_of_size w" "0 \<le> y \<and> y < int_of_size h"
  shows "no_oob (\<lambda>q. length q = unat w * unat h) (store_px q w x y c)"
  using store_px_guarded [of q w h x y c] assms by (simp add: no_oob_def)

lemmas no_oob_intros =
  no_oob_Inr no_oob_if no_oob_int_add no_oob_int_sub no_oob_int_mul no_oob_int_div
  no_oob_case_prod no_oob_for_le no_oob_for_lt no_oob_store_px

lemma no_oob_fill_rect:
  assumes "length pixels = unat pixels_width * unat pixels_height"
    and "uint pixels_width \<le> INT_MAX" "uint pixels_height \<le> INT_MAX"
  shows "no_oob (\<lambda>q. length q = unat pixels_width * unat pixels_height)
           (opencad_fill_rect pixels pixels_width pixels_height x0 y0 w h color)"
  unfolding opencad_fill_rect_def
  by (intro no_oob_intros assms) (simp_all add: assms)

lemma no_oob_fill_circle:
  assumes "length pixels = unat pixels_width * unat pixels_height"
    and "uint pixels_width \<le> INT_MAX" "uint pixels_height \<le> INT_MAX"
  shows "no_oob (\<lambda>q. length q = unat pixels_width * unat pixels_height)
           (opencad_fill_circle pixels pixels_width pixels_height cx cy r color)"
  unfolding opencad_fill_circle_def
  by (intro no_oob_intros assms) (simp_all add: assms)

lemma no_oob_draw_line:
  assumes "length pixels = unat pixels_width * unat pixels_height"
    and "uint pixels_width \<le> INT_MAX" "uint pixels_height \<le> INT_MAX"
  shows "no_oob (\<lambda>q. length q = unat pixels_width * unat pixels_height)
           (opencad_draw_line pixels pixels_width pixels_height x1 y1 x2 y2 color)"
  unfolding opencad_draw_line_def line_column_def Let_def
  by (intro no_oob_intros assms) (simp_all add: assms)

text \<open>
  Claim C10.  For a buffer of exactly \<open>width * height\<close> pixels whose width and height
  are representable as \<^verbatim>\<open>int\<close>, no call of \<open>opencad_fill_rect\<close>,
  \<open>opencad_fill_circle\<close> or \<open>opencad_draw_line\<close>, with any arguments whatever, reaches an
  access outside the array: the result is never \<open>Inl Out_Of_Bounds\<close>.  Every access is
  made under the two guards of the source, and under these guards the index computed in
  \<^verbatim>\<open>size_t\<close> is \<open>y * width + x\<close> without wrap-around and is below \<open>width * height\<close>.
\<close>

theorem no_out_of_bounds_access:
  assumes "length pixels = unat pixels_width * unat pixels_height"
    and "uint pixels_width \<le> INT_MAX" "uint pixels_height \<le> INT_MAX"
  shows "opencad_fill_rect pixels pixels_width pixels_height x0 y0 w h color \<noteq> Inl Out_Of_Bounds
       \<and> opencad_fill_circle pixels pixels_width pixels_height cx cy r color \<noteq> Inl Out_Of_Bounds
       \<and> opencad_draw_line pixels pixels_width pixels_height x1 y1 x2 y2 color \<noteq> Inl Out_Of_Bounds
       \<and> (\<forall>q x y. length q = length pixels
              \<and> 0 \<le> x \<and> x < int_of_size pixels_width \<and> 0 \<le> y \<and> y < int_of_size pixels_height
            \<longrightarrow> store_px q pixels_width x y color = Inr (q[px_index pixels_width x y := color])
              \<and> px_index pixels_width x y < unat pixels_width * unat pixels_height)"
  using no_oob_fill_rect [OF assms, of x0 y0 w h color]
    no_oob_fill_circle [OF assms, of cx cy r color]
    no_oob_draw_line [OF assms, of x1 y1 x2 y2 color]
    store_px_guarded [OF _ assms(2,3)] assms(1)
  by (simp add: no_oob_def)

theorem no_out_of_bounds_access_witness:
  "opencad_fill_rect [0, 0, 0, 0] 2 2 (- 5) 1 9 4294967296 7 \<noteq> Inl Out_Of_Bounds
   \<and> opencad_fill_circle [0, 0, 0, 0] 2 2 2147483647 (- 3) 70000 7 \<noteq> Inl Out_Of_Bounds
   \<and> opencad_draw_line [0, 0, 0, 0] 2 2 (- 70000) 5 3 (- 2147483648) 7 \<noteq> Inl Out_Of_Bounds
   \<and> store_px [0, 0, 0, 0] 2 1 1 7 = Inr ([0, 0, 0, 0][px_index 2 1 1 := 7])"
proof -
  have "opencad_fill_rect [0, 0, 0, 0] 2 2 (- 5) 1 9 4294967296 7 \<noteq> Inl Out_Of_Bounds
       \<and> opencad_fill_circle [0, 0, 0, 0] 2 2 2147483647 (- 3) 70000 7 \<noteq> Inl Out_Of_Bounds
       \<and> opencad_draw_line [0, 0, 0, 0] 2 2 (- 70000) 5 3 (- 2147483648) 7 \<noteq> Inl Out_Of_Bounds
       \<and> (\<forall>q x y. length q = length [0, 0, 0, 0 :: uint32_t]
              \<and> 0 \<le> x \<and> x < int_of_size 2 \<and> 0 \<le> y \<and> y < int_of_size 2
            \<longrightarrow> store_px q 2 x y 7 = Inr (q[px_index 2 x y := 7])
              \<and> px_index 2 x y < unat (2::size_t) * unat (2::size_t))"
    by (rule no_out_of_bounds_access) (simp_all add: INT_MAX_def)
  moreover have "(1::int) < int_of_size 2" by (simp add: int_of_size_def)
  ultimately show ?thesis by simp
qed

lemma abs_sdiv_le: "\<bar>a sdiv b\<bar> \<le> \<bar>a :: int\<bar>"
proof -
  have nn: "0 \<le> \<bar>a\<bar> div \<bar>b\<bar>"
    by (cases "b = 0") (simp_all add: pos_imp_zdiv_nonneg_iff)
  have le: "\<bar>a\<bar> div \<bar>b\<bar> \<le> \<bar>a\<bar>"
    using div_by_1 [of "\<bar>a\<bar>"] zdiv_mono2 [of "\<bar>a\<bar>" 1 "\<bar>b\<bar>"]
    by (cases "b = 0") simp_all
  have "a sdiv b = \<bar>a\<bar> div \<bar>b\<bar> \<or> a sdiv b = - (\<bar>a\<bar> div \<bar>b\<bar>) \<or> a sdiv b = 0"
    by (auto simp: signed_divide_int_def sgn_if)
  then show ?thesis using nn le by linarith
qed

lemma abs_mult_le: "\<bar>a\<bar> \<le> A \<Longrightarrow> \<bar>b\<bar> \<le> B \<Longrightarrow> \<bar>a * b\<bar> \<le> A * (B::int)"
  unfolding abs_mult by (intro mult_mono) auto

lemma opencad_draw_line_nonvertical:
  assumes "x1 \<noteq> x2"
  shows "opencad_draw_line pixels pixels_width pixels_height x1 y1 x2 y2 color =
           (if is_int (x2 - x1) \<and> is_int (y2 - y1) \<and> is_int ((y2 - y1) * x1)
               \<and> is_int (((y2 - y1) * x1) sdiv (x2 - x1))
               \<and> is_int (y1 - ((y2 - y1) * x1) sdiv (x2 - x1))
            then for_le (min x1 x2) (max x1 x2)
                   (line_column pixels_width pixels_height (x2 - x1) (y2 - y1)
                      (y1 - ((y2 - y1) * x1) sdiv (x2 - x1)) color) pixels
            else Inl Signed_Overflow)"
  using assms unfolding opencad_draw_line_def line_column_def swap_int_order
  by (simp add: int_sub_def int_mul_def int_div_def int_val_def)

lemma column_result:
  assumes "length q = unat pixels_width * unat pixels_height"
    and "uint pixels_width \<le> INT_MAX" "uint pixels_height \<le> INT_MAX"
    and "0 \<le> x" "x < uint pixels_width"
    and "for_le lo hi (\<lambda>y pixels.
            if 0 \<le> y \<and> y < uint pixels_height then store_px pixels pixels_width x y color
            else Inr pixels) q = Inr q'"
  shows "q' = paint (region pixels_width pixels_height (\<lambda>x' y'. x' = x \<and> lo \<le> y' \<and> y' \<le> hi))
                color q"
proof -
  let ?S = "\<lambda>y. if 0 \<le> y \<and> y < uint pixels_height then {px_index pixels_width x y} else {}"
  have "q' = paint (\<Union>y\<in>{lo..hi}. ?S y) color q"
    by (rule for_le_result [OF assms(6)])
       (use assms(1-5) in \<open>auto simp: store_px_paint [where h = pixels_height] split: if_splits\<close>)
  moreover have "(\<Union>y\<in>{lo..hi}. ?S y)
      = region pixels_width pixels_height (\<lambda>x' y'. x' = x \<and> lo \<le> y' \<and> y' \<le> hi)"
    using assms(4,5) by (auto simp: region_def split: if_splits)
  ultimately show ?thesis by simp
qed

lemma line_column_result:
  assumes "length q = unat pixels_width * unat pixels_height"
    and "uint pixels_width \<le> INT_MAX" "uint pixels_height \<le> INT_MAX"
    and "line_column pixels_width pixels_height dx dy c color x q = Inr q'"
  shows "q' = paint (if 0 \<le> x \<and> x < uint pixels_width
                     then region pixels_width pixels_height
                            (\<lambda>x' y'. x' = x
                               \<and> min ((dy * x) sdiv dx + c) ((dy * (x + 1)) sdiv dx + c) \<le> y'
                               \<and> y' \<le> max ((dy * x) sdiv dx + c) ((dy * (x + 1)) sdiv dx + c))
                     else {}) color q"
proof (cases "0 \<le> x \<and> x < uint pixels_width")
  case False
  then show ?thesis
    using assms(4) by (auto simp: line_column_def int_of_size_eq [OF assms(2)])
next
  case True
  let ?sy1 = "(dy * x) sdiv dx + c" and ?sy2 = "(dy * (x + 1)) sdiv dx + c"
  have "for_le (min ?sy1 ?sy2) (max ?sy1 ?sy2) (\<lambda>y pixels.
            if 0 \<le> y \<and> y < uint pixels_height then store_px pixels pixels_width x y color
            else Inr pixels) q = Inr q'"
    using assms(4) True
    unfolding line_column_def swap_int_order int_of_size_eq [OF assms(2)]
      int_of_size_eq [OF assms(3)]
    by (auto simp: ub_bind_eq_Inr int_mul_def int_div_def int_add_def int_val_eq_Inr
        split: if_splits)
  then show ?thesis
    using True column_result [OF assms(1-3)] by simp
qed

lemma line_column_defined:
  assumes "length q = unat pixels_width * unat pixels_height"
    and "uint pixels_width \<le> INT_MAX" "uint pixels_height \<le> INT_MAX"
    and "dx \<noteq> 0" "\<bar>dy\<bar> \<le> 46340" "\<bar>c\<bar> \<le> 1073720970" "\<bar>x\<bar> \<le> 23170"
  shows "\<exists>q'. line_column pixels_width pixels_height dx dy c color x q = Inr q'
              \<and> length q' = unat pixels_width * unat pixels_height"
proof (cases "0 \<le> x \<and> x < uint pixels_width")
  case False
  then show ?thesis
    using assms(1) by (auto simp: line_column_def int_of_size_eq [OF assms(2)])
next
  case True
  let ?sy1 = "(dy * x) sdiv dx + c" and ?sy2 = "(dy * (x + 1)) sdiv dx + c"
  have m1: "\<bar>dy * x\<bar> \<le> 46340 * 23170"
    using assms(5,7) by (rule abs_mult_le)
  have q1: "\<bar>(dy * x) sdiv dx\<bar> \<le> 46340 * 23170"
    using abs_sdiv_le [of "dy * x" dx] m1 by linarith
  have "\<bar>x + 1\<bar> \<le> 23171" using assms(7) by simp
  then have m2: "\<bar>dy * (x + 1)\<bar> \<le> 46340 * 23171"
    using assms(5) by (intro abs_mult_le)
  have q2: "\<bar>(dy * (x + 1)) sdiv dx\<bar> \<le> 46340 * 23171"
    using abs_sdiv_le [of "dy * (x + 1)" dx] m2 by linarith
  have ints: "is_int (dy * x)" "is_int ((dy * x) sdiv dx)" "is_int ?sy1" "is_int (x + 1)"
    "is_int (dy * (x + 1))" "is_int ((dy * (x + 1)) sdiv dx)" "is_int ?sy2"
    using m1 q1 m2 q2 assms(6,7) unfolding is_int_def INT_MIN_def INT_MAX_def by linarith+
  have lo: "INT_MIN \<le> min ?sy1 ?sy2" and hi: "max ?sy1 ?sy2 < INT_MAX"
    using q1 q2 assms(6) unfolding INT_MIN_def INT_MAX_def by linarith+
  have "line_column pixels_width pixels_height dx dy c color x q
          = for_le (min ?sy1 ?sy2) (max ?sy1 ?sy2) (\<lambda>y pixels.
              if 0 \<le> y \<and> y < uint pixels_height then store_px pixels pixels_width x y color
              else Inr pixels) q"
    using True ints assms(4)
    unfolding line_column_def swap_int_order int_of_size_eq [OF assms(2)]
      int_of_size_eq [OF assms(3)]
    by (simp add: int_mul_def int_div_def int_add_def int_val_is_int)
  then show ?thesis
    using True column_paint [OF assms(1-3) _ _ lo hi, of x color] assms(1) by simp
qed


lemma UN_region_columns:
  "(\<Union>x\<in>{a..b}. if 0 \<le> x \<and> x < uint w
                   then region w h (\<lambda>x' y'. x' = x \<and> lo x \<le> y' \<and> y' \<le> hi x) else {})
     = region w h (\<lambda>x y. a \<le> x \<and> x \<le> b \<and> lo x \<le> y \<and> y \<le> hi x)"
proof (intro set_eqI iffI)
  fix j
  assume "j \<in> (\<Union>x\<in>{a..b}. if 0 \<le> x \<and> x < uint w
                   then region w h (\<lambda>x' y'. x' = x \<and> lo x \<le> y' \<and> y' \<le> hi x) else {})"
  then obtain x where x: "a \<le> x" "x \<le> b" "0 \<le> x" "x < uint w"
    and "j \<in> region w h (\<lambda>x' y'. x' = x \<and> lo x \<le> y' \<and> y' \<le> hi x)"
    by (auto split: if_splits)
  then obtain y where "j = px_index w x y" "0 \<le> y" "y < uint h" "lo x \<le> y" "y \<le> hi x"
    by (auto simp: region_def)
  then show "j \<in> region w h (\<lambda>x y. a \<le> x \<and> x \<le> b \<and> lo x \<le> y \<and> y \<le> hi x)"
    unfolding region_def using x by (intro CollectI exI [of _ x] exI [of _ y]) simp
next
  fix j
  assume "j \<in> region w h (\<lambda>x y. a \<le> x \<and> x \<le> b \<and> lo x \<le> y \<and> y \<le> hi x)"
  then obtain x y where xy: "j = px_index w x y" "0 \<le> x" "x < uint w" "0 \<le> y" "y < uint h"
    "a \<le> x" "x \<le> b" "lo x \<le> y" "y \<le> hi x"
    by (auto simp: region_def)
  have "j \<in> region w h (\<lambda>x' y'. x' = x \<and> lo x \<le> y' \<and> y' \<le> hi x)"
    unfolding region_def using xy by (intro CollectI exI [of _ x] exI [of _ y]) simp
  then have "j \<in> (if 0 \<le> x \<and> x < uint w
                   then region w h (\<lambda>x' y'. x' = x \<and> lo x \<le> y' \<and> y' \<le> hi x) else {})"
    using xy by simp
  moreover have "x \<in> {a..b}" using xy by simp
  ultimately show "j \<in> (\<Union>x\<in>{a..b}. if 0 \<le> x \<and> x < uint w
                   then region w h (\<lambda>x' y'. x' = x \<and> lo x \<le> y' \<and> y' \<le> hi x) else {})"
    by blast
qed

text \<open>
  Claim C4, as amended.  For a non-vertical line (\<open>x1 \<noteq> x2\<close>) on a buffer of exactly
  \<open>width * height\<close> pixels with dimensions at most \<^verbatim>\<open>INT_MAX\<close>: whenever the call is
  defined, that is, no \<^verbatim>\<open>int\<close> operation of it overflows, the result is the buffer in
  which exactly the pixels \<open>(x, y)\<close> of the buffer with \<open>min x1 x2 \<le> x \<le> max x1 x2\<close> and
  \<open>y\<close> in the inclusive span between \<open>sy1 = (dy * x) / dx + c\<close> and
  \<open>sy2 = (dy * (x + 1)) / dx + c\<close> hold the colour, where \<open>dx = x2 - x1\<close>, \<open>dy = y2 - y1\<close>,
  \<open>c = y1 - (dy * x1) / dx\<close> and every division truncates towards zero (\<open>line_y\<close>); all
  other pixels are unchanged.  The call is defined at least when all four coordinates
  have absolute value at most 23170.
\<close>

theorem opencad_draw_line_nonvertical_span:
  assumes "length pixels = unat pixels_width * unat pixels_height"
    and "uint pixels_width \<le> INT_MAX" "uint pixels_height \<le> INT_MAX"
    and "x1 \<noteq> x2"
  shows "(\<bar>x1\<bar> \<le> 23170 \<and> \<bar>y1\<bar> \<le> 23170 \<and> \<bar>x2\<bar> \<le> 23170 \<and> \<bar>y2\<bar> \<le> 23170
            \<longrightarrow> (\<exists>pixels'. opencad_draw_line pixels pixels_width pixels_height x1 y1 x2 y2 color
                            = Inr pixels'))
       \<and> (\<forall>pixels'. opencad_draw_line pixels pixels_width pixels_height x1 y1 x2 y2 color
                       = Inr pixels'
            \<longrightarrow> length pixels' = length pixels
              \<and> (\<forall>x y. 0 \<le> x \<and> x < uint pixels_width \<and> 0 \<le> y \<and> y < uint pixels_height
                    \<longrightarrow> pixels' ! px_index pixels_width x y =
                          (if min x1 x2 \<le> x \<and> x \<le> max x1 x2
                              \<and> min (line_y x1 y1 x2 y2 x) (line_y x1 y1 x2 y2 (x + 1)) \<le> y
                              \<and> y \<le> max (line_y x1 y1 x2 y2 x) (line_y x1 y1 x2 y2 (x + 1))
                           then color else pixels ! px_index pixels_width x y)))"
proof (intro conjI impI allI)
  let ?dx = "x2 - x1" and ?dy = "y2 - y1"
  let ?c = "y1 - (?dy * x1) sdiv ?dx"
  assume b: "\<bar>x1\<bar> \<le> 23170 \<and> \<bar>y1\<bar> \<le> 23170 \<and> \<bar>x2\<bar> \<le> 23170 \<and> \<bar>y2\<bar> \<le> 23170"
  have dx: "\<bar>?dx\<bar> \<le> 46340" and dy: "\<bar>?dy\<bar> \<le> 46340" using b by auto
  have x1: "\<bar>x1\<bar> \<le> 23170" using b by simp
  have m: "\<bar>?dy * x1\<bar> \<le> 46340 * 23170"
    using dy x1 by (rule abs_mult_le)
  have q: "\<bar>(?dy * x1) sdiv ?dx\<bar> \<le> 46340 * 23170"
    using abs_sdiv_le [of "?dy * x1" ?dx] m by linarith
  have c: "\<bar>?c\<bar> \<le> 1073720970" using q b by linarith
  have ints: "is_int ?dx" "is_int ?dy" "is_int (?dy * x1)" "is_int ((?dy * x1) sdiv ?dx)" "is_int ?c"
    using dx dy m q c unfolding is_int_def INT_MIN_def INT_MAX_def by linarith+
  have "\<exists>p'. for_le (min x1 x2) (max x1 x2)
                (line_column pixels_width pixels_height ?dx ?dy ?c color) pixels = Inr p'
             \<and> length p' = unat pixels_width * unat pixels_height"
  proof (rule for_le_defined [where I = "\<lambda>q. length q = unat pixels_width * unat pixels_height"])
    show "INT_MIN \<le> min x1 x2" using b unfolding INT_MIN_def by linarith
    show "max x1 x2 < INT_MAX" using b unfolding INT_MAX_def by linarith
    show "length pixels = unat pixels_width * unat pixels_height" by fact
  next
    fix k and q :: "uint32_t list"
    assume k: "min x1 x2 \<le> k" "k \<le> max x1 x2"
      and l: "length q = unat pixels_width * unat pixels_height"
    have "\<bar>k\<bar> \<le> 23170" using k b by linarith
    then show "\<exists>q'. line_column pixels_width pixels_height ?dx ?dy ?c color k q = Inr q'
                 \<and> length q' = unat pixels_width * unat pixels_height"
      using assms(4) by (intro line_column_defined [OF l assms(2,3) _ dy c]) simp_all
  qed
  then show "\<exists>pixels'. opencad_draw_line pixels pixels_width pixels_height x1 y1 x2 y2 color
                 = Inr pixels'"
    using ints by (auto simp: opencad_draw_line_nonvertical [OF assms(4)])
next
  fix pixels'
  assume r: "opencad_draw_line pixels pixels_width pixels_height x1 y1 x2 y2 color = Inr pixels'"
  let ?dx = "x2 - x1" and ?dy = "y2 - y1"
  let ?c = "y1 - (?dy * x1) sdiv ?dx"
  let ?P = "\<lambda>x y. min x1 x2 \<le> x \<and> x \<le> max x1 x2
              \<and> min (line_y x1 y1 x2 y2 x) (line_y x1 y1 x2 y2 (x + 1)) \<le> y
              \<and> y \<le> max (line_y x1 y1 x2 y2 x) (line_y x1 y1 x2 y2 (x + 1))"
  let ?S = "\<lambda>x. if 0 \<le> x \<and> x < uint pixels_width
                then region pixels_width pixels_height
                       (\<lambda>x' y'. x' = x
                          \<and> min ((?dy * x) sdiv ?dx + ?c) ((?dy * (x + 1)) sdiv ?dx + ?c) \<le> y'
                          \<and> y' \<le> max ((?dy * x) sdiv ?dx + ?c) ((?dy * (x + 1)) sdiv ?dx + ?c))
                else {}"
  from r have loop: "for_le (min x1 x2) (max x1 x2)
                (line_column pixels_width pixels_height ?dx ?dy ?c color) pixels = Inr pixels'"
    by (simp add: opencad_draw_line_nonvertical [OF assms(4)] split: if_splits)
  have p: "pixels' = paint (\<Union>x\<in>{min x1 x2..max x1 x2}. ?S x) color pixels"
  proof (rule for_le_result [OF loop])
    fix k and q q' :: "uint32_t list"
    assume "length q = length pixels"
      and "line_column pixels_width pixels_height ?dx ?dy ?c color k q = Inr q'"
    then show "q' = paint (?S k) color q"
      using line_column_result [OF _ assms(2,3), of q ?dx ?dy ?c color k q'] assms(1) by simp
  qed
  have set: "(\<Union>x\<in>{min x1 x2..max x1 x2}. ?S x) = region pixels_width pixels_height ?P"
    unfolding line_y_def
    by (rule UN_region_columns
        [where lo = "\<lambda>x. min ((?dy * x) sdiv ?dx + ?c) ((?dy * (x + 1)) sdiv ?dx + ?c)"
           and hi = "\<lambda>x. max ((?dy * x) sdiv ?dx + ?c) ((?dy * (x + 1)) sdiv ?dx + ?c)"])
  have p': "pixels' = paint (region pixels_width pixels_height ?P) color pixels"
    using p by (simp only: set)
  show "length pixels' = length pixels"
    by (simp add: p')
  fix x y
  assume "0 \<le> x \<and> x < uint pixels_width \<and> 0 \<le> y \<and> y < uint pixels_height"
  then show "pixels' ! px_index pixels_width x y =
                          (if min x1 x2 \<le> x \<and> x \<le> max x1 x2
                              \<and> min (line_y x1 y1 x2 y2 x) (line_y x1 y1 x2 y2 (x + 1)) \<le> y
                              \<and> y \<le> max (line_y x1 y1 x2 y2 x) (line_y x1 y1 x2 y2 (x + 1))
                           then color else pixels ! px_index pixels_width x y)"
    unfolding p' using assms(1) by (simp add: nth_paint_region)
qed


theorem opencad_draw_line_nonvertical_span_witness:
  "\<exists>pixels'. opencad_draw_line [0, 0, 0, 0, 0, 0, 0, 0, 0] 3 3 0 0 2 2 7 = Inr pixels'
      \<and> length pixels' = 9
      \<and> pixels' ! px_index 3 0 0 = 7
      \<and> pixels' ! px_index 3 0 1 = 7
      \<and> pixels' ! px_index 3 2 0 = 0"
proof -
  have v: "line_y 0 0 2 2 0 = 0" "line_y 0 0 2 2 1 = 1" "line_y 0 0 2 2 2 = 2" "line_y 0 0 2 2 3 = 3"
    by (simp_all add: line_y_def signed_divide_int_def)
  from opencad_draw_line_nonvertical_span [of "[0, 0, 0, 0, 0, 0, 0, 0, 0]" 3 3 0 2 0 2 7]
  have d: "\<exists>pixels'. opencad_draw_line [0, 0, 0, 0, 0, 0, 0, 0, 0] 3 3 0 0 2 2 7 = Inr pixels'"
    and p: "\<forall>pixels'. opencad_draw_line [0, 0, 0, 0, 0, 0, 0, 0, 0] 3 3 0 0 2 2 7 = Inr pixels'
            \<longrightarrow> length pixels' = length [0, 0, 0, 0, 0, 0, 0, 0, 0 :: uint32_t]
              \<and> (\<forall>x y. 0 \<le> x \<and> x < uint (3::size_t) \<and> 0 \<le> y \<and> y < uint (3::size_t)
                    \<longrightarrow> pixels' ! px_index 3 x y =
                          (if min 0 2 \<le> x \<and> x \<le> max 0 2
                              \<and> min (line_y 0 0 2 2 x) (line_y 0 0 2 2 (x + 1)) \<le> y
                              \<and> y \<le> max (line_y 0 0 2 2 x) (line_y 0 0 2 2 (x + 1))
                           then 7 else [0, 0, 0, 0, 0, 0, 0, 0, 0 :: uint32_t] ! px_index 3 x y))"
    by (simp_all add: INT_MAX_def)
  from d obtain pixels' where r: "opencad_draw_line [0, 0, 0, 0, 0, 0, 0, 0, 0] 3 3 0 0 2 2 7 = Inr pixels'"
    by blast
  from p [rule_format, OF r] have l: "length pixels' = 9"
    and q: "\<forall>x y. 0 \<le> x \<and> x < uint (3::size_t) \<and> 0 \<le> y \<and> y < uint (3::size_t)
                    \<longrightarrow> pixels' ! px_index 3 x y =
                          (if min 0 2 \<le> x \<and> x \<le> max 0 2
                              \<and> min (line_y 0 0 2 2 x) (line_y 0 0 2 2 (x + 1)) \<le> y
                              \<and> y \<le> max (line_y 0 0 2 2 x) (line_y 0 0 2 2 (x + 1))
                           then 7 else [0, 0, 0, 0, 0, 0, 0, 0, 0 :: uint32_t] ! px_index 3 x y)"
    by simp_all
  from q [rule_format, of 0 0] have "pixels' ! px_index 3 0 0 = 7" by (simp add: v)
  moreover from q [rule_format, of 0 1] have "pixels' ! px_index 3 0 1 = 7" by (simp add: v)
  moreover from q [rule_format, of 2 0] have "pixels' ! px_index 3 2 0 = 0"
    by (simp add: v px_index_def)
  ultimately show ?thesis using r l by simp
qed

text \<open>
  Claim C4, as stated, fails for the line from \<open>(-70000, -70000)\<close> to \<open>(10, 10)\<close> on a
  1 by 1 buffer: the claim puts the span \<open>0 .. 1\<close> at column 0, so the pixel would be
  set, but the intercept needs \<open>dy * x1 = 70010 * -70000\<close>, which overflows \<^verbatim>\<open>int\<close>.
\<close>

theorem opencad_draw_line_nonvertical_span_counterexample:
  "opencad_draw_line [0] 1 1 (- 70000) (- 70000) 10 10 7 = Inl Signed_Overflow
   \<and> line_y (- 70000) (- 70000) 10 10 0 = 0
   \<and> line_y (- 70000) (- 70000) 10 10 1 = 1"
  by (simp add: opencad_draw_line_nonvertical is_int_def INT_MIN_def INT_MAX_def line_y_def
      signed_divide_int_def)

end
